theory Spec2Isabelle
  imports Main "HOL-Library.AList"
begin

section \<open>JavaScript values the update manager relies on\<close>

text \<open>
  The manager (\<^verbatim>\<open>src/data/DataUpdateManager.js\<close>) keeps two object literals that it
  indexes with a caller-supplied string: \<^verbatim>\<open>priorities[sourceType]\<close> and
  \<^verbatim>\<open>this.callbacks[event]\<close>. Indexing an object literal finds its own properties first
  and then the members it inherits from \<^verbatim>\<open>Object.prototype\<close>; every inherited member is a
  function or an object, hence truthy, and none of them is a number or an array.
\<close>

definition object_prototype_names :: "string list" where
  "object_prototype_names =
     [''constructor'', ''__defineGetter__'', ''__defineSetter__'', ''hasOwnProperty'',
      ''__lookupGetter__'', ''__lookupSetter__'', ''isPrototypeOf'', ''propertyIsEnumerable'',
      ''toString'', ''valueOf'', ''__proto__'', ''toLocaleString'']"

datatype 'a property = Own 'a | Inherited | Absent

definition get_property :: "(string \<times> 'a) list \<Rightarrow> string \<Rightarrow> 'a property" where
  "get_property obj key =
     (case map_of obj key of
        Some v \<Rightarrow> Own v
      | None \<Rightarrow> if key \<in> set object_prototype_names then Inherited else Absent)"

text \<open>A priority is what \<^verbatim>\<open>getUpdatePriority\<close> returns: a number, or (for an inherited
  name) the inherited member itself.\<close>

datatype jsvalue = Number int | Member string

text \<open>What a \<^verbatim>\<open>catch\<close> receives: an \<^verbatim>\<open>Error\<close> or a \<^verbatim>\<open>TypeError\<close>, which carry a message, or
  a bare string (the store's binding layer throws strings), whose \<^verbatim>\<open>message\<close> is
  \<^verbatim>\<open>undefined\<close>, here \<open>None\<close>.\<close>

datatype js_error = Error string | TypeError string | Thrown string

fun message :: "js_error \<Rightarrow> string option" where
  "message (Error m) = Some m"
| "message (TypeError m) = Some m"
| "message (Thrown s) = None"

text \<open>
  \<^verbatim>\<open>Array.prototype.sort(compare)\<close> is a stable sort. For a consistent comparison the
  result of a stable sort is unique, and it is the one computed here by insertion from the
  right: an element goes in front of the first later element that does not have to precede
  it. A comparison that yields \<^verbatim>\<open>NaN\<close> (here \<open>None\<close>) counts as \<open>+0\<close>; it arises only for a
  priority that is not a number, the comparison is then inconsistent and the order an engine
  produces is its own, so nothing is stated below about the order of a queue that holds such
  a priority.
\<close>

fun insert_js :: "('a \<Rightarrow> 'a \<Rightarrow> int option) \<Rightarrow> 'a \<Rightarrow> 'a list \<Rightarrow> 'a list" where
  "insert_js compare x [] = [x]"
| "insert_js compare x (y # ys) =
     (if (case compare x y of None \<Rightarrow> True | Some v \<Rightarrow> v \<le> 0)
      then x # y # ys else y # insert_js compare x ys)"

definition sort_js :: "('a \<Rightarrow> 'a \<Rightarrow> int option) \<Rightarrow> 'a list \<Rightarrow> 'a list" where
  "sort_js compare xs = foldr (insert_js compare) xs []"

fun minus_js :: "jsvalue \<Rightarrow> jsvalue \<Rightarrow> int option" where
  "minus_js (Number x) (Number y) = Some (x - y)"
| "minus_js (Number x) (Member n) = None"
| "minus_js (Member n) y = None"

section \<open>Data model\<close>

text \<open>
  The records follow the object literals of the source. Left out are the fields no
  operation below reads: the display strings of the \<^verbatim>\<open>dim_data_sources\<close> rows, the date
  bucket and the processing duration of an audit row (a floating-point quotient).
  Times are milliseconds on the clock \<open>now\<close> of the runtime.
\<close>

record source =
  id_src :: string
  name :: string
  type_src :: string
  repositoryUrl :: string
  filePath :: string
  checkInterval :: nat
  lastCheckTime :: "nat option"
  lastUpdateTime :: "nat option"
  isActive :: bool

datatype status = pending | in_progress | completed | failed

record task =
  id_task :: string
  sourceId :: string
  source :: source
  status :: status
  queuedAt :: nat
  priority :: jsvalue
  startTime :: "nat option"
  endTime :: "nat option"
  databaseId :: "string option"
  result :: "(nat \<times> nat) option"
  error :: "string option"

text \<open>A row of \<^verbatim>\<open>fact_data_updates\<close> (the audit trail) and a row of
  \<^verbatim>\<open>dim_data_sources\<close>, as \<^verbatim>\<open>database/schema.sql\<close> declares them.\<close>

record update_row =
  pk_update_id :: string
  fk_source_id :: string
  update_type :: string
  update_status :: status
  records_added :: nat
  records_modified :: nat
  error_message :: "string option"
  git_commit_hash :: "string option"
  created_at :: nat

record source_row =
  pk_source_id :: string
  source_type :: string
  last_check_timestamp :: "nat option"
  last_update_timestamp :: "nat option"

datatype listener = Listener (tag: string) (raises: bool)

text \<open>What the manager prints and whom it calls, in order: the console lines that mark the
  progress of the queue, and each invocation of a registered listener.\<close>


datatype hash = Hash string | Null | Undefined

datatype obs =
    Called string string task
  | CallbackError string
  | Queued task
  | DrainStarted
  | Processing task
  | UpdateCompleted task
  | ProcessingError task js_error
  | DrainCompleted
  | Uncaught js_error
  | Checking string
  | HashChanged string hash hash
  | UpdatesDetected string
  | NoUpdates string

text \<open>
  A drain loop (one call of \<^verbatim>\<open>processUpdateQueue\<close>) is suspended at one of the awaits it
  can reach, with the task it has taken from the queue. A call of \<^verbatim>\<open>this.db.run\<close> has done
  its work, or has thrown, when it returns its promise; what the \<^verbatim>\<open>await\<close> will deliver is
  kept in the suspended loop.

  \<^item> \<open>Starting\<close>: \<^verbatim>\<open>processUpdate\<close> awaits \<^verbatim>\<open>logUpdateStart\<close>, which will return the key of
    the inserted row or throw; also when \<^verbatim>\<open>processUpdate\<close> has thrown before that.
  \<^item> \<open>Running\<close>: the update routine is fetching the payload.
  \<^item> \<open>Failing\<close>: the \<^verbatim>\<open>catch\<close> of \<^verbatim>\<open>processUpdate\<close>, holding the error caught, awaits
    \<^verbatim>\<open>logUpdateError\<close>, which will return or throw.
  \<^item> \<open>Caught\<close>: the \<^verbatim>\<open>catch\<close> of the loop awaits \<^verbatim>\<open>logUpdateError\<close>.
  \<^item> \<open>Resolving\<close>: \<^verbatim>\<open>logUpdateComplete\<close> awaits the current commit hash.
  \<^item> \<open>Completing\<close>: \<^verbatim>\<open>logUpdateComplete\<close> awaits its first \<^verbatim>\<open>UPDATE\<close>, which will return
    or throw.
  \<^item> \<open>Finishing\<close>: \<^verbatim>\<open>logUpdateComplete\<close> awaits its second \<^verbatim>\<open>UPDATE\<close>.
\<close>

datatype loop =
    Starting task "js_error + string"
  | Running task
  | Failing task js_error "js_error option"
  | Caught task "js_error option"
  | Resolving task
  | Completing task "js_error option"
  | Finishing task

fun task_of :: "loop \<Rightarrow> task" where
  "task_of (Starting t outcome) = t"
| "task_of (Running t) = t"
| "task_of (Failing t e outcome) = t"
| "task_of (Caught t outcome) = t"
| "task_of (Resolving t) = t"
| "task_of (Completing t outcome) = t"
| "task_of (Finishing t) = t"


text \<open>
  The state has three parts: the fields of the manager object; the tables behind
  \<^verbatim>\<open>this.db\<close> that the manager reads and writes; and the runtime around it: the suspended
  drain loops, the source checks waiting for the network (by index into \<open>updateSources\<close>),
  the pending timers (due time and source index), the clock, the generator behind
  \<^verbatim>\<open>generateUpdateId\<close> (its \<open>n\<close>-th answer, \<^verbatim>\<open>Date.now()\<close> and a random suffix in the
  source) and the trace.
\<close>

record manager =
  updateSources :: "source list"
  updateQueue :: "task list"
  isProcessing :: bool
  callbacks :: "(string \<times> listener list) list"
  fact_data_updates :: "update_row list"
  dim_data_sources :: "source_row list"
  fact_pokemon :: nat
  loops :: "loop list"
  checks :: "nat list"
  timers :: "(nat \<times> nat) list"
  now :: nat
  idgen :: "nat \<Rightarrow> string"
  idctr :: nat
  trace :: "obs list"

section \<open>The constructor\<close>

definition default_sources :: "source list" where
  "default_sources =
     [\<lparr>id_src = ''pvpoke-gamemaster'', name = ''PvPoke GameMaster'', type_src = ''gamemaster'',
       repositoryUrl = ''https://github.com/pvpoke/pvpoke.git'',
       filePath = ''src/data/gamemaster.json'', checkInterval = 6 * 60 * 60 * 1000,
       lastCheckTime = None, lastUpdateTime = None, isActive = True\<rparr>,
      \<lparr>id_src = ''pvpoke-rankings'', name = ''PvPoke Rankings'', type_src = ''rankings'',
       repositoryUrl = ''https://github.com/pvpoke/pvpoke.git'',
       filePath = ''src/data/rankings/'', checkInterval = 12 * 60 * 60 * 1000,
       lastCheckTime = None, lastUpdateTime = None, isActive = True\<rparr>,
      \<lparr>id_src = ''pokemon-resources'', name = ''Pokemon Resources'', type_src = ''tiers'',
       repositoryUrl = ''https://github.com/mgrann03/pokemon-resources.git'',
       filePath = ''pogo_pkm_tiers.json'', checkInterval = 24 * 60 * 60 * 1000,
       lastCheckTime = None, lastUpdateTime = None, isActive = True\<rparr>,
      \<lparr>id_src = ''dialgadex-data'', name = ''Dialgadex Data'', type_src = ''tiers'',
       repositoryUrl = ''https://github.com/mgrann03/dialgadex.git'',
       filePath = ''scripts/'', checkInterval = 24 * 60 * 60 * 1000,
       lastCheckTime = None, lastUpdateTime = None, isActive = True\<rparr>]"

text \<open>\<open>constructor\<close> builds the manager over a given store (the audit rows, the source
  rows and the number of \<^verbatim>\<open>fact_pokemon\<close> rows) at a given time, with a given id generator.\<close>

definition constructor ::
  "update_row list \<Rightarrow> source_row list \<Rightarrow> nat \<Rightarrow> nat \<Rightarrow> (nat \<Rightarrow> string) \<Rightarrow> manager" where
  "constructor updates sources pokemon clock gen =
     \<lparr>updateSources = default_sources, updateQueue = [], isProcessing = False,
      callbacks = [(''onUpdateStart'', []), (''onUpdateComplete'', []),
                   (''onUpdateError'', []), (''onDataChange'', [])],
      fact_data_updates = updates, dim_data_sources = sources, fact_pokemon = pokemon,
      loops = [], checks = [], timers = [], now = clock, idgen = gen, idctr = 0, trace = []\<rparr>"

section \<open>Utility functions and the event bus\<close>

definition generateUpdateId :: "manager \<Rightarrow> string \<times> manager" where
  "generateUpdateId st = (idgen st (idctr st), st\<lparr>idctr := Suc (idctr st)\<rparr>)"

definition priorities :: "(string \<times> int) list" where
  "priorities = [(''gamemaster'', 10), (''rankings'', 8), (''tiers'', 6), (''moves'', 4)]"

text \<open>\<^verbatim>\<open>return priorities[sourceType] || 1\<close>: a missing entry and a zero are falsy, an
  inherited member is truthy and is returned as it is.\<close>

definition getUpdatePriority :: "string \<Rightarrow> jsvalue" where
  "getUpdatePriority sourceType =
     (case get_property priorities sourceType of
        Own n \<Rightarrow> if n = 0 then Number 1 else Number n
      | Inherited \<Rightarrow> Member sourceType
      | Absent \<Rightarrow> Number 1)"

text \<open>\<^verbatim>\<open>on(event, callback)\<close>: an own entry is an array (truthy even when empty) and takes
  the callback; an inherited member passes the truthiness test and has no \<^verbatim>\<open>push\<close>.\<close>

definition on :: "string \<Rightarrow> listener \<Rightarrow> manager \<Rightarrow> js_error + manager" where
  "on event callback st =
     (case get_property (callbacks st) event of
        Own ls \<Rightarrow> Inr (st\<lparr>callbacks := AList.update event (ls @ [callback]) (callbacks st)\<rparr>)
      | Inherited \<Rightarrow> Inl (TypeError ''this.callbacks[event].push is not a function'')
      | Absent \<Rightarrow> Inr st)"

text \<open>One listener call inside \<^verbatim>\<open>forEach\<close>: an exception of the listener is caught and
  printed.\<close>

definition invoke :: "string \<Rightarrow> task \<Rightarrow> listener \<Rightarrow> obs list" where
  "invoke event data callback =
     Called event (tag callback) data # (if raises callback then [CallbackError event] else [])"

definition triggerCallbacks :: "string \<Rightarrow> task \<Rightarrow> manager \<Rightarrow> js_error + manager" where
  "triggerCallbacks event data st =
     (case get_property (callbacks st) event of
        Own ls \<Rightarrow> Inr (st\<lparr>trace := trace st @ concat (map (invoke event data) ls)\<rparr>)
      | Inherited \<Rightarrow> Inl (TypeError ''this.callbacks[event].forEach is not a function'')
      | Absent \<Rightarrow> Inr st)"


section \<open>The store\<close>

text \<open>
  The store behind \<^verbatim>\<open>this.db\<close> is \<^verbatim>\<open>LocalDatabase\<close> over an SQLite engine. It is open when
  the manager is built (\<^verbatim>\<open>PokemonGoApp.initialize\<close> awaits the store first). Rows are kept
  in insertion order.

  \<^verbatim>\<open>LocalDatabase.run(sql, params)\<close> prepares the statement, binds \<^verbatim>\<open>params\<close> and executes
  it, all before it returns its promise. Binding accepts strings, numbers, booleans and
  \<^verbatim>\<open>null\<close>; for \<^verbatim>\<open>undefined\<close> the binding layer throws a string, and the statement is not
  executed. A statement that breaks a constraint of the schema throws an \<^verbatim>\<open>Error\<close>. After
  the statement \<^verbatim>\<open>run\<close> saves the database file and ignores a failure to do so, which is
  not modelled.

  \<^verbatim>\<open>LocalDatabase.all(sql, params)\<close>, and \<^verbatim>\<open>get\<close> on top of it, prepares the statement and
  steps through it without binding \<^verbatim>\<open>params\<close>. The engine reads a parameter that is not bound
  as \<^verbatim>\<open>NULL\<close>, and a comparison with \<^verbatim>\<open>NULL\<close> is not true.
\<close>

datatype param = Text string | Numeric | SqlNull | NotDefined

definition bind :: "param list \<Rightarrow> js_error option" where
  "bind params =
     (if NotDefined \<in> set params
      then Some (Thrown ''Wrong API use : tried to bind a value of an unknown type (undefined).'')
      else None)"

definition text_param :: "string option \<Rightarrow> param" where
  "text_param s = (case s of None \<Rightarrow> NotDefined | Some v \<Rightarrow> Text v)"

definition hash_param :: "hash \<Rightarrow> param" where
  "hash_param h = (case h of Hash v \<Rightarrow> Text v | Null \<Rightarrow> SqlNull | Undefined \<Rightarrow> NotDefined)"

definition sql_equal :: "'a option \<Rightarrow> 'a option \<Rightarrow> bool" where
  "sql_equal a b = (case a of None \<Rightarrow> False | Some x \<Rightarrow> (case b of None \<Rightarrow> False | Some y \<Rightarrow> x = y))"


definition update_types :: "string list" where
  "update_types = [''pokemon'', ''moves'', ''rankings'', ''tiers'', ''gamemaster'']"

definition source_types :: "string list" where
  "source_types = [''rankings'', ''gamemaster'', ''tiers'', ''moves'']"

definition insert_update :: "update_row \<Rightarrow> manager \<Rightarrow> js_error + manager" where
  "insert_update row st =
     (if pk_update_id row \<in> set (map pk_update_id (fact_data_updates st))
      then Inl (Error ''UNIQUE constraint failed: fact_data_updates.pk_update_id'')
      else if update_type row \<notin> set update_types
      then Inl (Error ''CHECK constraint failed: update_type'')
      else Inr (st\<lparr>fact_data_updates := fact_data_updates st @ [row]\<rparr>))"

text \<open>\<^verbatim>\<open>INSERT OR REPLACE INTO dim_data_sources\<close>: a row with the same key is deleted, the
  new row is added with the columns the statement does not name left \<^verbatim>\<open>NULL\<close>.\<close>

definition replace_source :: "source \<Rightarrow> manager \<Rightarrow> js_error + manager" where
  "replace_source src st =
     (if type_src src \<notin> set source_types
      then Inl (Error ''CHECK constraint failed: source_type'')
      else Inr (st\<lparr>dim_data_sources :=
             filter (\<lambda>r. pk_source_id r \<noteq> id_src src) (dim_data_sources st) @
             [\<lparr>pk_source_id = id_src src, source_type = type_src src,
               last_check_timestamp = None, last_update_timestamp = None\<rparr>]\<rparr>))"

fun initializeDataSources_loop :: "source list \<Rightarrow> manager \<Rightarrow> js_error + manager" where
  "initializeDataSources_loop [] st = Inr st"
| "initializeDataSources_loop (src # rest) st =
     (case replace_source src st of
        Inl e \<Rightarrow> Inl e
      | Inr st1 \<Rightarrow> initializeDataSources_loop rest st1)"

definition initializeDataSources :: "manager \<Rightarrow> js_error + manager" where
  "initializeDataSources st = initializeDataSources_loop (updateSources st) st"


section \<open>Change detection\<close>

text \<open>
  The answer of the remote to the commit request is a parameter: the request fails
  (\<^verbatim>\<open>fetch\<close> rejects or the body does not parse), or the body parses and has a member
  \<^verbatim>\<open>sha\<close>, a string, or the body parses and has no such member (the reply of the remote to
  a request it refuses). \<^verbatim>\<open>getCurrentGitHash\<close> does not look at the status of the reply: it
  returns \<^verbatim>\<open>data.sha\<close>, which is \<^verbatim>\<open>undefined\<close> in the last case, and \<^verbatim>\<open>null\<close> when the
  request fails.
\<close>

datatype commit_response = FetchError | Commit string | NoSha

definition getCurrentGitHash :: "commit_response \<Rightarrow> hash" where
  "getCurrentGitHash response =
     (case response of Commit sha \<Rightarrow> Hash sha | NoSha \<Rightarrow> Undefined | FetchError \<Rightarrow> Null)"

text \<open>
  \<^verbatim>\<open>getLastKnownHash\<close> asks for the completed rows \<^verbatim>\<open>WHERE fk_source_id = ?\<close>, most recent
  first by \<^verbatim>\<open>created_at\<close> (a stamp in seconds; rows with equal stamps come in the order of
  the table), and takes the first. It asks through \<^verbatim>\<open>this.db.get\<close>, so the parameter stays
  unbound. \<^verbatim>\<open>result?.git_commit_hash || null\<close>: no row, a \<^verbatim>\<open>NULL\<close> hash and an empty hash all
  give \<^verbatim>\<open>null\<close>.
\<close>

definition getLastKnownHash :: "source \<Rightarrow> manager \<Rightarrow> hash" where
  "getLastKnownHash src st =
     (let unbound = None;
          rows = filter (\<lambda>r. sql_equal (Some (fk_source_id r)) unbound \<and>
                             update_status r = completed) (fact_data_updates st)
      in case sort_key (\<lambda>r. - int (created_at r)) rows of
           [] \<Rightarrow> Null
         | r # rs \<Rightarrow>
             (case git_commit_hash r of
                None \<Rightarrow> Null
              | Some h \<Rightarrow> if h = [] then Null else Hash h))"

text \<open>Neither helper throws, so the \<^verbatim>\<open>catch\<close> of \<^verbatim>\<open>detectChanges\<close> has nothing to
  catch; \<^verbatim>\<open>!==\<close> compares \<^verbatim>\<open>null\<close>, \<^verbatim>\<open>undefined\<close> and strings. A change is printed.\<close>

definition detectChanges :: "commit_response \<Rightarrow> source \<Rightarrow> manager \<Rightarrow> bool \<times> manager" where
  "detectChanges response src st =
     (let currentHash = getCurrentGitHash response;
          lastHash = getLastKnownHash src st;
          hasChanges = (currentHash \<noteq> lastHash)
      in (hasChanges,
          if hasChanges
          then st\<lparr>trace := trace st @ [HashChanged (name src) lastHash currentHash]\<rparr>
          else st))"

section \<open>The audit trail\<close>

text \<open>
  Each of the three functions is given up to the \<^verbatim>\<open>await\<close> on its \<^verbatim>\<open>this.db.run\<close>: the
  result is the state the statement leaves and what the \<^verbatim>\<open>await\<close> will deliver.
  \<^verbatim>\<open>logUpdateComplete\<close> has a second statement, given after the first.
\<close>

definition logUpdateStart :: "task \<Rightarrow> manager \<Rightarrow> (js_error + string) \<times> manager" where
  "logUpdateStart updateTask st =
     (case generateUpdateId st of
        (updateId, st1) \<Rightarrow>
          (case insert_update
                  \<lparr>pk_update_id = updateId, fk_source_id = sourceId updateTask,
                   update_type = type_src (source updateTask), update_status = in_progress,
                   records_added = 0, records_modified = 0, error_message = None,
                   git_commit_hash = None, created_at = now st1 div 1000\<rparr> st1 of
             Inl e \<Rightarrow> (Inl e, st1)
           | Inr st2 \<Rightarrow> (Inr updateId, st2)))"

definition logUpdateComplete ::
  "commit_response \<Rightarrow> task \<Rightarrow> manager \<Rightarrow> js_error option \<times> manager" where
  "logUpdateComplete response updateTask st =
     (let currentHash = getCurrentGitHash response
      in case bind [Text ''completed'', Numeric, Numeric, Numeric, hash_param currentHash,
                    text_param (databaseId updateTask)] of
           Some e \<Rightarrow> (Some e, st)
         | None \<Rightarrow>
             (None,
              st\<lparr>fact_data_updates :=
                  map (\<lambda>r. if Some (pk_update_id r) = databaseId updateTask
                            then r\<lparr>update_status := completed,
                                   records_added := (case result updateTask of
                                                       Some c \<Rightarrow> fst c | None \<Rightarrow> 0),
                                   records_modified := (case result updateTask of
                                                          Some c \<Rightarrow> snd c | None \<Rightarrow> 0),
                                   git_commit_hash := (case currentHash of
                                                         Hash h \<Rightarrow> Some h | Null \<Rightarrow> None
                                                       | Undefined \<Rightarrow> None)\<rparr>
                            else r)
                      (fact_data_updates st)\<rparr>))"

definition logUpdateComplete_source :: "task \<Rightarrow> manager \<Rightarrow> manager" where
  "logUpdateComplete_source updateTask st =
     st\<lparr>dim_data_sources :=
          map (\<lambda>r. if pk_source_id r = sourceId updateTask
                    then r\<lparr>last_update_timestamp := endTime updateTask\<rparr> else r)
              (dim_data_sources st)\<rparr>"

definition logUpdateError :: "task \<Rightarrow> js_error \<Rightarrow> manager \<Rightarrow> js_error option \<times> manager" where
  "logUpdateError updateTask e st =
     (case bind [Text ''failed'', text_param (message e), Numeric,
                 text_param (databaseId updateTask)] of
        Some e' \<Rightarrow> (Some e', st)
      | None \<Rightarrow>
          (None,
           st\<lparr>fact_data_updates :=
               map (\<lambda>r. if Some (pk_update_id r) = databaseId updateTask
                         then r\<lparr>update_status := failed, error_message := message e\<rparr>
                         else r)
                   (fact_data_updates st)\<rparr>))"


section \<open>The update routines\<close>

text \<open>
  What the network answers to \<^verbatim>\<open>fetch(filePath)\<close> is a parameter, a function of the path:
  the request is rejected, or it returns a status and, when the body parses, a document.
  A document is the game master (for every listed pokemon and every listed move, whether
  the store already has the row) or a list of entries (rankings, tiers); for an entry the
  document carries what the record routine answers. The record routines are empty in the
  source ("to be implemented") and return \<^verbatim>\<open>undefined\<close>, which is \<open>NoResult\<close> here: reading
  \<^verbatim>\<open>result.isNew\<close> off it raises a \<^verbatim>\<open>TypeError\<close>.
\<close>

datatype upsert = IsNew bool | NoResult | Throws string

datatype document = GameMaster "bool list" "bool list" | Entries "upsert list"

datatype fetched = Rejected | Response nat "document option"

definition loadJsonFile :: "(string \<Rightarrow> fetched) \<Rightarrow> string \<Rightarrow> document option" where
  "loadJsonFile net path =
     (case net path of
        Rejected \<Rightarrow> None
      | Response code body \<Rightarrow> if 200 \<le> code \<and> code \<le> 299 then body else None)"

fun upsert_all :: "upsert list \<Rightarrow> nat \<times> nat \<Rightarrow> js_error + nat \<times> nat" where
  "upsert_all [] counts = Inr counts"
| "upsert_all (IsNew isNew # rest) counts =
     upsert_all rest (if isNew then (Suc (fst counts), snd counts)
                      else (fst counts, Suc (snd counts)))"
| "upsert_all (NoResult # rest) counts =
     Inl (TypeError ''Cannot read properties of undefined (reading isNew)'')"
| "upsert_all (Throws m # rest) counts = Inl (Error m)"

definition updateGameMaster :: "(string \<Rightarrow> fetched) \<Rightarrow> js_error + nat \<times> nat" where
  "updateGameMaster net =
     (case loadJsonFile net ''pvpoke/src/data/gamemaster.json'' of
        None \<Rightarrow> Inl (Error ''Failed to load GameMaster data'')
      | Some (GameMaster pokemon moves) \<Rightarrow>
          Inr (length (filter Not pokemon) + length (filter Not moves),
               length (filter id pokemon) + length (filter id moves))
      | Some (Entries es) \<Rightarrow> Inl (TypeError ''gameMasterData.pokemon is not iterable''))"

definition leagues :: "string list" where
  "leagues = [''1500'', ''2500'', ''10000'']"

definition scenarios :: "string list" where
  "scenarios = [''leads'', ''closers'', ''switches'', ''chargers'', ''attackers'', ''overall'']"

fun updateRankings_loop ::
  "(string \<Rightarrow> fetched) \<Rightarrow> (string \<times> string) list \<Rightarrow> nat \<times> nat \<Rightarrow> js_error + nat \<times> nat" where
  "updateRankings_loop net [] counts = Inr counts"
| "updateRankings_loop net ((league, scenario) # rest) counts =
     (case loadJsonFile net
             (''pvpoke/src/data/rankings/all/overall/rankings-'' @ league @ ''.json'') of
        None \<Rightarrow> updateRankings_loop net rest counts
      | Some (Entries es) \<Rightarrow>
          (case upsert_all es counts of
             Inl e \<Rightarrow> Inl e
           | Inr counts1 \<Rightarrow> updateRankings_loop net rest counts1)
      | Some (GameMaster pokemon moves) \<Rightarrow> Inl (TypeError ''rankingsData is not iterable''))"

definition updateRankings :: "(string \<Rightarrow> fetched) \<Rightarrow> js_error + nat \<times> nat" where
  "updateRankings net =
     updateRankings_loop net
       (concat (map (\<lambda>league. map (\<lambda>scenario. (league, scenario)) scenarios) leagues)) (0, 0)"

definition updateTiers :: "(string \<Rightarrow> fetched) \<Rightarrow> js_error + nat \<times> nat" where
  "updateTiers net =
     (case loadJsonFile net ''pokemon-resources/pogo_pkm_tiers.json'' of
        None \<Rightarrow> Inr (0, 0)
      | Some (Entries es) \<Rightarrow> upsert_all es (0, 0)
      | Some (GameMaster pokemon moves) \<Rightarrow> Inl (TypeError ''tierData is not iterable''))"

text \<open>The \<^verbatim>\<open>switch\<close> of \<^verbatim>\<open>processUpdate\<close>; its default case throws before any request is
  sent.\<close>

definition routine_types :: "string list" where
  "routine_types = [''gamemaster'', ''rankings'', ''tiers'']"

definition update_routine :: "string \<Rightarrow> (string \<Rightarrow> fetched) \<Rightarrow> js_error + nat \<times> nat" where
  "update_routine sourceType net =
     (if sourceType = ''gamemaster'' then updateGameMaster net
      else if sourceType = ''rankings'' then updateRankings net
      else if sourceType = ''tiers'' then updateTiers net
      else Inl (Error (''Unknown source type: '' @ sourceType)))"


section \<open>The processor\<close>

text \<open>
  JavaScript runs one call at a time; an asynchronous function gives up control only at an
  \<^verbatim>\<open>await\<close>, and goes on from there in a later turn, after whatever else was ready to run.
  The drain loop is therefore given in segments, each from one \<^verbatim>\<open>await\<close> that does work to
  the next, and between two segments any other call can take its turn. An \<^verbatim>\<open>await\<close> that
  only hands a result or an exception from a callee to its caller is run through.

  \<open>processUpdate\<close> is \<^verbatim>\<open>processUpdate\<close> up to its first \<^verbatim>\<open>await\<close>, on \<^verbatim>\<open>logUpdateStart\<close>, which
  stands before the \<^verbatim>\<open>try\<close>; \<open>processUpdate_try\<close> enters the \<^verbatim>\<open>try\<close> with the key of the row,
  up to the request of the update routine; \<open>processUpdate_catch\<close> is the \<^verbatim>\<open>catch\<close> block of
  \<^verbatim>\<open>processUpdate\<close> up to its \<^verbatim>\<open>await\<close>, and \<open>processUpdateQueue_catch\<close> the \<^verbatim>\<open>catch\<close> block
  of the loop up to its \<^verbatim>\<open>await\<close>.
\<close>

definition processUpdate :: "task \<Rightarrow> manager \<Rightarrow> manager \<times> loop" where
  "processUpdate updateTask st =
     (let st1 = st\<lparr>trace := trace st @ [Processing updateTask]\<rparr>;
          t1 = updateTask\<lparr>status := in_progress, startTime := Some (now st)\<rparr>
      in case triggerCallbacks ''onUpdateStart'' t1 st1 of
           Inl e \<Rightarrow> (st1, Starting t1 (Inl e))
         | Inr st2 \<Rightarrow>
             (case logUpdateStart t1 st2 of
                (outcome, st3) \<Rightarrow> (st3, Starting t1 outcome)))"

definition processUpdate_catch :: "js_error \<Rightarrow> task \<Rightarrow> manager \<Rightarrow> manager \<times> loop" where
  "processUpdate_catch e updateTask st =
     (let t1 = updateTask\<lparr>status := failed, error := message e, endTime := Some (now st)\<rparr>
      in case logUpdateError t1 e st of
           (outcome, st1) \<Rightarrow> (st1, Failing t1 e outcome))"

definition processUpdate_try :: "task \<Rightarrow> manager \<Rightarrow> manager \<times> loop" where
  "processUpdate_try updateTask st =
     (if type_src (source updateTask) \<in> set routine_types
      then (st, Running updateTask)
      else processUpdate_catch
             (Error (''Unknown source type: '' @ type_src (source updateTask))) updateTask st)"

definition processUpdateQueue_catch :: "js_error \<Rightarrow> task \<Rightarrow> manager \<Rightarrow> manager \<times> loop" where
  "processUpdateQueue_catch e updateTask st =
     (let st1 = st\<lparr>trace := trace st @ [ProcessingError updateTask e]\<rparr>;
          t1 = updateTask\<lparr>status := failed, error := message e\<rparr>
      in case logUpdateError t1 e st1 of
           (outcome, st2) \<Rightarrow> (st2, Caught t1 outcome))"

text \<open>The test of the \<^verbatim>\<open>while\<close> loop and what follows up to the next \<^verbatim>\<open>await\<close>: the loop
  ends, or it takes the first task of the queue and is suspended in \<^verbatim>\<open>processUpdate\<close>.\<close>

definition processUpdateQueue_while :: "manager \<Rightarrow> manager \<times> loop option" where
  "processUpdateQueue_while st =
     (case updateQueue st of
        [] \<Rightarrow> (st\<lparr>isProcessing := False, trace := trace st @ [DrainCompleted]\<rparr>, None)
      | updateTask # rest \<Rightarrow>
          (case processUpdate updateTask (st\<lparr>updateQueue := rest\<rparr>) of
             (st1, l) \<Rightarrow> (st1, Some l)))"

definition processUpdateQueue :: "manager \<Rightarrow> manager" where
  "processUpdateQueue st =
     (if isProcessing st \<or> updateQueue st = [] then st
      else (let st1 = st\<lparr>isProcessing := True, trace := trace st @ [DrainStarted]\<rparr>
            in case processUpdateQueue_while st1 of
                 (st2, None) \<Rightarrow> st2
               | (st2, Some l) \<Rightarrow> st2\<lparr>loops := loops st2 @ [l]\<rparr>))"


definition compare_priority :: "task \<Rightarrow> task \<Rightarrow> int option" where
  "compare_priority a b = minus_js (priority b) (priority a)"

definition queueUpdate :: "source \<Rightarrow> manager \<Rightarrow> manager" where
  "queueUpdate src st =
     (case generateUpdateId st of
        (taskId, st1) \<Rightarrow>
          (let updateTask =
                 \<lparr>id_task = taskId, sourceId = id_src src, source = src, status = pending,
                  queuedAt = now st1, priority = getUpdatePriority (type_src src),
                  startTime = None, endTime = None, databaseId = None, result = None,
                  error = None\<rparr>;
               st2 = st1\<lparr>updateQueue := sort_js compare_priority (updateQueue st1 @ [updateTask])\<rparr>;
               st3 = st2\<lparr>trace := trace st2 @ [Queued updateTask]\<rparr>
           in if \<not> isProcessing st3 then processUpdateQueue st3 else st3))"


text \<open>The \<open>i\<close>-th suspended loop is suspended anew, goes round again after its task is
  done, or is left by an exception that nothing catches: \<^verbatim>\<open>processUpdateQueue\<close> is then
  over without having reset \<^verbatim>\<open>isProcessing\<close>, and the runtime reports the rejection.\<close>

definition suspend :: "nat \<Rightarrow> manager \<times> loop \<Rightarrow> manager" where
  "suspend i sl = (case sl of (st, l) \<Rightarrow> st\<lparr>loops := (loops st)[i := l]\<rparr>)"

definition continue_loop :: "nat \<Rightarrow> manager \<Rightarrow> manager" where
  "continue_loop i st =
     (case processUpdateQueue_while st of
        (st1, None) \<Rightarrow> st1\<lparr>loops := take i (loops st1) @ drop (Suc i) (loops st1)\<rparr>
      | (st1, Some l) \<Rightarrow> st1\<lparr>loops := (loops st1)[i := l]\<rparr>)"

definition abandon_loop :: "nat \<Rightarrow> js_error \<Rightarrow> manager \<Rightarrow> manager" where
  "abandon_loop i e st =
     st\<lparr>loops := take i (loops st) @ drop (Suc i) (loops st), trace := trace st @ [Uncaught e]\<rparr>"

text \<open>
  The \<open>i\<close>-th loop goes on from an \<^verbatim>\<open>await\<close> on the store.

  \<^item> From \<open>Starting\<close>: an exception leaves \<^verbatim>\<open>processUpdate\<close> at once and reaches the
    \<^verbatim>\<open>catch\<close> of the loop; otherwise the task gets its \<^verbatim>\<open>databaseId\<close> and the \<^verbatim>\<open>try\<close> begins.
  \<^item> From \<open>Failing\<close>: an exception of \<^verbatim>\<open>logUpdateError\<close> leaves the \<^verbatim>\<open>catch\<close> block at once;
    otherwise the listeners are told and the error caught is thrown again. Either way the
    \<^verbatim>\<open>catch\<close> of the loop is next.
  \<^item> From \<open>Caught\<close>: an exception of \<^verbatim>\<open>logUpdateError\<close> leaves the loop; otherwise the loop
    goes round.
  \<^item> From \<open>Completing\<close>: an exception is caught by the \<^verbatim>\<open>catch\<close> of \<^verbatim>\<open>processUpdate\<close>;
    otherwise the second statement is run.
  \<^item> From \<open>Finishing\<close>: the listeners are told, the completion is printed and the loop goes
    round.
\<close>

definition resume :: "nat \<Rightarrow> manager \<Rightarrow> manager" where
  "resume i st =
     (if i < length (loops st) then
        (case loops st ! i of
           Starting updateTask (Inl e) \<Rightarrow> suspend i (processUpdateQueue_catch e updateTask st)
         | Starting updateTask (Inr updateId) \<Rightarrow>
             suspend i (processUpdate_try (updateTask\<lparr>databaseId := Some updateId\<rparr>) st)
         | Failing updateTask e (Some e') \<Rightarrow>
             suspend i (processUpdateQueue_catch e' updateTask st)
         | Failing updateTask e None \<Rightarrow>
             (case triggerCallbacks ''onUpdateError'' updateTask st of
                Inl e' \<Rightarrow> suspend i (processUpdateQueue_catch e' updateTask st)
              | Inr st1 \<Rightarrow> suspend i (processUpdateQueue_catch e updateTask st1))
         | Caught updateTask (Some e') \<Rightarrow> abandon_loop i e' st
         | Caught updateTask None \<Rightarrow> continue_loop i st
         | Completing updateTask (Some e') \<Rightarrow>
             suspend i (processUpdate_catch e' updateTask st)
         | Completing updateTask None \<Rightarrow>
             suspend i (logUpdateComplete_source updateTask st, Finishing updateTask)
         | Finishing updateTask \<Rightarrow>
             (case triggerCallbacks ''onUpdateComplete'' updateTask st of
                Inl e \<Rightarrow> suspend i (processUpdate_catch e updateTask st)
              | Inr st1 \<Rightarrow>
                  continue_loop i (st1\<lparr>trace := trace st1 @ [UpdateCompleted updateTask]\<rparr>))
         | Running updateTask \<Rightarrow> st
         | Resolving updateTask \<Rightarrow> st)
      else st)"

text \<open>The update routine of the \<open>i\<close>-th loop settles, given what the network answered.
  On success the task is marked completed and \<^verbatim>\<open>logUpdateComplete\<close> asks for the commit
  hash; an exception is caught by the \<^verbatim>\<open>catch\<close> of \<^verbatim>\<open>processUpdate\<close>.\<close>

definition routine_settles :: "nat \<Rightarrow> (string \<Rightarrow> fetched) \<Rightarrow> manager \<Rightarrow> manager" where
  "routine_settles i net st =
     (if i < length (loops st) then
        (case loops st ! i of
           Running updateTask \<Rightarrow>
             (case update_routine (type_src (source updateTask)) net of
                Inr counts \<Rightarrow>
                  st\<lparr>loops := (loops st)[i := Resolving
                        (updateTask\<lparr>status := completed, result := Some counts,
                                     endTime := Some (now st)\<rparr>)]\<rparr>
              | Inl e \<Rightarrow> suspend i (processUpdate_catch e updateTask st))
         | other \<Rightarrow> st)
      else st)"

text \<open>The commit request of \<^verbatim>\<open>logUpdateComplete\<close> in the \<open>i\<close>-th loop settles, and the
  first statement of \<^verbatim>\<open>logUpdateComplete\<close> is run.\<close>

definition hash_settles :: "nat \<Rightarrow> commit_response \<Rightarrow> manager \<Rightarrow> manager" where
  "hash_settles i response st =
     (if i < length (loops st) then
        (case loops st ! i of
           Resolving updateTask \<Rightarrow>
             (case logUpdateComplete response updateTask st of
                (outcome, st1) \<Rightarrow> suspend i (st1, Completing updateTask outcome))
         | other \<Rightarrow> st)
      else st)"


section \<open>The scheduler\<close>

text \<open>\<^verbatim>\<open>setTimeout(checkSource, delay)\<close> adds a timer that is due \<open>delay\<close> milliseconds
  from now; a timer can fire once the clock has reached its due time. The callback
  \<^verbatim>\<open>checkSource\<close> is given in two segments, up to the commit request of \<^verbatim>\<open>detectChanges\<close>
  and from there to its end: the awaits on the store that follow separate only a read that
  selects no row, one call of \<^verbatim>\<open>queueUpdate\<close>, a write to the row of the source and the
  setting of the next timer.\<close>

definition scheduleSourceCheck :: "nat \<Rightarrow> manager \<Rightarrow> manager" where
  "scheduleSourceCheck i st = st\<lparr>timers := timers st @ [(now st + 60000, i)]\<rparr>"

definition startMonitoring :: "manager \<Rightarrow> manager" where
  "startMonitoring st =
     foldl (\<lambda>s i. if isActive (updateSources s ! i) then scheduleSourceCheck i s else s)
       st [0..<length (updateSources st)]"

definition checkSource_begin :: "nat \<Rightarrow> manager \<Rightarrow> manager" where
  "checkSource_begin i st =
     st\<lparr>trace := trace st @ [Checking (name (updateSources st ! i))],
        updateSources := (updateSources st)
                           [i := (updateSources st ! i)\<lparr>lastCheckTime := Some (now st)\<rparr>],
        checks := checks st @ [i]\<rparr>"


text \<open>The rest of \<^verbatim>\<open>checkSourceForUpdates\<close>, and the \<^verbatim>\<open>finally\<close> block of
  \<^verbatim>\<open>checkSource\<close>, which sets the next timer whatever happened before.\<close>

definition checkSource_resume :: "commit_response \<Rightarrow> nat \<Rightarrow> manager \<Rightarrow> manager" where
  "checkSource_resume response i st =
     (let src = updateSources st ! i;
          (hasUpdates, st0) = detectChanges response src st;
          st1 = (if hasUpdates
                 then queueUpdate src (st0\<lparr>trace := trace st0 @ [UpdatesDetected (name src)]\<rparr>)
                 else st0\<lparr>trace := trace st0 @ [NoUpdates (name src)]\<rparr>);
          st2 = st1\<lparr>dim_data_sources :=
                  map (\<lambda>r. if pk_source_id r = id_src src
                            then r\<lparr>last_check_timestamp := lastCheckTime src\<rparr> else r)
                      (dim_data_sources st1)\<rparr>
      in st2\<lparr>timers := timers st2 @ [(now st2 + checkInterval src, i)]\<rparr>)"


definition timer_fires :: "nat \<Rightarrow> manager \<Rightarrow> manager" where
  "timer_fires k st =
     (if k < length (timers st) \<and> fst (timers st ! k) \<le> now st
         \<and> snd (timers st ! k) < length (updateSources st)
      then checkSource_begin (snd (timers st ! k))
             (st\<lparr>timers := take k (timers st) @ drop (Suc k) (timers st)\<rparr>)
      else st)"

definition check_settles :: "nat \<Rightarrow> commit_response \<Rightarrow> manager \<Rightarrow> manager" where
  "check_settles j response st =
     (if j < length (checks st) \<and> checks st ! j < length (updateSources st)
      then checkSource_resume response (checks st ! j)
             (st\<lparr>checks := take j (checks st) @ drop (Suc j) (checks st)\<rparr>)
      else st)"

section \<open>Initialization\<close>

text \<open>\<open>performInitialDataLoad\<close> returns the state and whether its last statement,
  \<^verbatim>\<open>await this.processUpdateQueue()\<close>, is left waiting for a drain loop that this very call
  started and that is now suspended. When the call returns at its guard there is nothing to
  wait for and the caller goes on at once. \<^verbatim>\<open>initialize\<close> is given as one segment: its awaits
  on the store separate the writes to \<^verbatim>\<open>dim_data_sources\<close>, the setting of the timers and the
  enqueues of the initial load, which follow one another within one turn.\<close>

definition performInitialDataLoad :: "manager \<Rightarrow> manager \<times> bool" where
  "performInitialDataLoad st =
     (if fact_pokemon st = 0 then
        (let st1 = foldl (\<lambda>s src. if isActive src then queueUpdate src s else s)
                     st (updateSources st);
             st2 = processUpdateQueue st1
         in (st2, length (loops st1) < length (loops st2)))
      else (st, False))"

definition initialize :: "manager \<Rightarrow> js_error + manager \<times> bool" where
  "initialize st =
     (case initializeDataSources st of
        Inl e \<Rightarrow> Inl e
      | Inr st1 \<Rightarrow> Inr (performInitialDataLoad (startMonitoring st1)))"


section \<open>Runs\<close>

text \<open>What can happen to a manager: its public methods are called, a drain loop that waits
  for the store takes its next turn, time passes, a timer fires, and a request on the network
  settles. A run is any sequence of these.\<close>

datatype event =
    Initialize
  | Register string listener
  | Enqueue source
  | Resume nat
  | RoutineSettles nat "string \<Rightarrow> fetched"
  | HashSettles nat commit_response
  | Advance nat
  | TimerFires nat
  | CheckSettles nat commit_response

fun step :: "manager \<Rightarrow> event \<Rightarrow> manager" where
  "step st Initialize = (case initialize st of Inl e \<Rightarrow> st | Inr (st1, waiting) \<Rightarrow> st1)"
| "step st (Register ev callback) = (case on ev callback st of Inl e \<Rightarrow> st | Inr st1 \<Rightarrow> st1)"
| "step st (Enqueue src) = queueUpdate src st"
| "step st (Resume i) = resume i st"
| "step st (RoutineSettles i net) = routine_settles i net st"
| "step st (HashSettles i response) = hash_settles i response st"
| "step st (Advance d) = st\<lparr>now := now st + d\<rparr>"
| "step st (TimerFires k) = timer_fires k st"
| "step st (CheckSettles j response) = check_settles j response st"

definition run :: "manager \<Rightarrow> event list \<Rightarrow> manager" where
  "run st evs = foldl step st evs"

section \<open>Observations and invariants\<close>

fun processed :: "obs list \<Rightarrow> task list" where
  "processed [] = []"
| "processed (Processing t # rest) = t # processed rest"
| "processed (other # rest) = processed rest"

definition dequeued :: "manager \<Rightarrow> task list" where
  "dequeued st = processed (trace st)"

fun checked :: "obs list \<Rightarrow> string list" where
  "checked [] = []"
| "checked (Checking n # rest) = n # checked rest"
| "checked (other # rest) = checked rest"

definition notices :: "string \<Rightarrow> task \<Rightarrow> manager \<Rightarrow> obs list" where
  "notices event data st =
     (case map_of (callbacks st) event of None \<Rightarrow> [] | Some ls \<Rightarrow> concat (map (invoke event data) ls))"

definition quiet :: "obs list \<Rightarrow> bool" where
  "quiet xs \<longleftrightarrow> processed xs = [] \<and> checked xs = []"

definition untouched :: "manager \<Rightarrow> manager \<Rightarrow> bool" where
  "untouched st st' \<longleftrightarrow>
     updateSources st' = updateSources st \<and> updateQueue st' = updateQueue st \<and>
     isProcessing st' = isProcessing st \<and> callbacks st' = callbacks st \<and>
     fact_pokemon st' = fact_pokemon st \<and> loops st' = loops st \<and> checks st' = checks st \<and>
     timers st' = timers st \<and> now st' = now st \<and> idgen st' = idgen st \<and>
     (\<exists>xs. trace st' = trace st @ xs \<and> quiet xs)"

definition new_task :: "source \<Rightarrow> manager \<Rightarrow> task" where
  "new_task src st =
     \<lparr>id_task = idgen st (idctr st), sourceId = id_src src, source = src, status = pending,
      queuedAt = now st, priority = getUpdatePriority (type_src src), startTime = None,
      endTime = None, databaseId = None, result = None, error = None\<rparr>"

definition pushed :: "source \<Rightarrow> manager \<Rightarrow> manager" where
  "pushed src st =
     st\<lparr>idctr := Suc (idctr st),
        updateQueue := sort_js compare_priority (updateQueue st @ [new_task src st]),
        trace := trace st @ [Queued (new_task src st)]\<rparr>"

text \<open>What one turn of a drain loop does to the queue: nothing, or the loop ends on an empty
  queue, or it takes the first task.\<close>

definition turn :: "manager \<Rightarrow> manager \<Rightarrow> bool" where
  "turn st st' \<longleftrightarrow>
     updateSources st' = updateSources st \<and> callbacks st' = callbacks st \<and>
     fact_pokemon st' = fact_pokemon st \<and> checks st' = checks st \<and> timers st' = timers st \<and>
     now st' = now st \<and> idgen st' = idgen st \<and> checked (trace st') = checked (trace st) \<and>
     length (loops st') \<le> length (loops st) \<and>
     (updateQueue st' = updateQueue st \<and> isProcessing st' = isProcessing st \<and>
        dequeued st' = dequeued st \<or>
      updateQueue st = [] \<and> updateQueue st' = [] \<and> \<not> isProcessing st' \<and>
        dequeued st' = dequeued st \<or>
      (\<exists>t. updateQueue st = t # updateQueue st' \<and> isProcessing st' = isProcessing st \<and>
         dequeued st' = dequeued st @ [t]))"

definition prio :: "task \<Rightarrow> int" where
  "prio t = (case priority t of Number n \<Rightarrow> n | Member m \<Rightarrow> 0)"

definition numeric :: "task \<Rightarrow> bool" where
  "numeric t = (case priority t of Number n \<Rightarrow> True | Member m \<Rightarrow> False)"

definition ordered :: "task list \<Rightarrow> bool" where
  "ordered q \<longleftrightarrow> sorted_wrt (\<lambda>a b. prio b \<le> prio a) q \<and> (\<forall>t\<in>set q. numeric t)"

fun plain_event :: "event \<Rightarrow> bool" where
  "plain_event (Enqueue src) = (type_src src \<notin> set object_prototype_names)"
| "plain_event e = True"

fun enqueues :: "event \<Rightarrow> bool" where
  "enqueues (Enqueue src) = True"
| "enqueues Initialize = True"
| "enqueues (CheckSettles j response) = True"
| "enqueues e = False"

definition orderly :: "manager \<Rightarrow> bool" where
  "orderly st \<longleftrightarrow>
     ordered (updateQueue st) \<and>
     (\<forall>s\<in>set (updateSources st). type_src s \<notin> set object_prototype_names) \<and>
     (\<not> isProcessing st \<longrightarrow> updateQueue st = [])"

text \<open>A manager whose drain loop was left by an exception: \<^verbatim>\<open>isProcessing\<close> is set and no
  loop is there to reset it.\<close>

definition halted :: "manager \<Rightarrow> bool" where
  "halted st \<longleftrightarrow> isProcessing st \<and> loops st = []"

definition stuck :: "manager \<Rightarrow> manager \<Rightarrow> bool" where
  "stuck st st' \<longleftrightarrow>
     halted st' \<and> dequeued st' = dequeued st \<and> fact_data_updates st' = fact_data_updates st \<and>
     set (updateQueue st) \<subseteq> set (updateQueue st')"

definition schedule :: "manager \<Rightarrow> source list \<times> nat list \<times> (nat \<times> nat) list \<times> nat \<times> string list" where
  "schedule st = (updateSources st, checks st, timers st, now st, checked (trace st))"

definition configured :: "manager \<Rightarrow> bool" where
  "configured st \<longleftrightarrow>
     map type_src (updateSources st) = map type_src default_sources \<and>
     map checkInterval (updateSources st) = map checkInterval default_sources \<and>
     map isActive (updateSources st) = map isActive default_sources"

definition timed :: "nat \<Rightarrow> manager \<Rightarrow> bool" where
  "timed clock st \<longleftrightarrow>
     configured st \<and> clock \<le> now st \<and>
     (\<forall>x\<in>set (timers st). clock + 60000 \<le> fst x \<and> snd x < length default_sources) \<and>
     (\<forall>i\<in>set (checks st). i < length default_sources) \<and>
     (now st < clock + 60000 \<longrightarrow> checks st = [] \<and> checked (trace st) = [])"

definition scheduled :: "manager \<Rightarrow> bool" where
  "scheduled st \<longleftrightarrow>
     (\<forall>i<length default_sources. i \<in> snd ` set (timers st) \<or> i \<in> set (checks st))"

definition example_ids :: "nat \<Rightarrow> string" where
  "example_ids n = replicate n CHR ''i''"

definition unreachable :: "string \<Rightarrow> fetched" where
  "unreachable path = Rejected"

definition no_tiers :: "string \<Rightarrow> fetched" where
  "no_tiers path = Response 200 (Some (Entries []))"

text \<open>The spec's \<^verbatim>\<open>lastKnownVersionMarker\<close> of a source: the marker (\<^verbatim>\<open>git_commit_hash\<close>) of
  the last completed audit record of that source, the records taken in the order in which
  they were written.\<close>

definition lastKnownVersionMarker :: "source \<Rightarrow> manager \<Rightarrow> string option" where
  "lastKnownVersionMarker src st =
     (case filter (\<lambda>r. fk_source_id r = id_src src \<and> update_status r = completed)
             (fact_data_updates st) of
        [] \<Rightarrow> None
      | r # rs \<Rightarrow> git_commit_hash (last (r # rs)))"

definition previous_update :: update_row where
  "previous_update =
     \<lparr>pk_update_id = ''upd_0'', fk_source_id = ''pokemon-resources'',
      update_type = ''tiers'', update_status = completed, records_added = 0,
      records_modified = 0, error_message = None, git_commit_hash = Some ''abc'',
      created_at = 0\<rparr>"

section \<open>Basic facts\<close>

lemma processed_append [simp]: "processed (xs @ ys) = processed xs @ processed ys"
  by (induction xs rule: processed.induct) auto

lemma processed_invoke [simp]: "processed (concat (map (invoke event data) ls)) = []"
  by (induction ls) (auto simp: invoke_def)

lemma processed_notices [simp]: "processed (notices event data st) = []"
  by (simp add: notices_def split: option.splits)

lemma checked_append [simp]: "checked (xs @ ys) = checked xs @ checked ys"
  by (induction xs rule: checked.induct) auto

lemma checked_invoke [simp]: "checked (concat (map (invoke event data) ls)) = []"
  by (induction ls) (auto simp: invoke_def)

lemma checked_notices [simp]: "checked (notices ev d st) = []"
  by (simp add: notices_def split: option.splits)

lemma quiet_simps [simp]:
  "quiet []" "quiet (notices ev d st)" "quiet [ProcessingError t e]" "quiet [UpdateCompleted t]"
  "quiet [Uncaught e]" "quiet [DrainStarted]" "quiet [DrainCompleted]" "quiet [Queued t]"
  "quiet xs \<Longrightarrow> quiet ys \<Longrightarrow> quiet (xs @ ys)"
  by (simp_all add: quiet_def)

lemma triggerCallbacks_named:
  "event \<notin> set object_prototype_names \<Longrightarrow>
   triggerCallbacks event data st = Inr (st\<lparr>trace := trace st @ notices event data st\<rparr>)"
  by (auto simp add: triggerCallbacks_def get_property_def notices_def split: option.splits)

lemma names_not_inherited:
  "''onUpdateStart'' \<notin> set object_prototype_names"
  "''onUpdateComplete'' \<notin> set object_prototype_names"
  "''onUpdateError'' \<notin> set object_prototype_names"
  by (simp_all add: object_prototype_names_def)

lemmas trigger_simps = triggerCallbacks_named [OF names_not_inherited(1)]
  triggerCallbacks_named [OF names_not_inherited(2)] triggerCallbacks_named [OF names_not_inherited(3)]

lemma dequeued_simps [simp]:
  "dequeued (st\<lparr>isProcessing := b\<rparr>) = dequeued st"
  "dequeued (st\<lparr>updateQueue := q\<rparr>) = dequeued st"
  "dequeued (st\<lparr>loops := ls\<rparr>) = dequeued st"
  "dequeued (st\<lparr>idctr := n\<rparr>) = dequeued st"
  "dequeued (st\<lparr>fact_data_updates := rows\<rparr>) = dequeued st"
  "dequeued (st\<lparr>dim_data_sources := srows\<rparr>) = dequeued st"
  "dequeued (st\<lparr>timers := ts\<rparr>) = dequeued st"
  "dequeued (st\<lparr>checks := cs\<rparr>) = dequeued st"
  "dequeued (st\<lparr>now := n\<rparr>) = dequeued st"
  "dequeued (st\<lparr>updateSources := ss\<rparr>) = dequeued st"
  "dequeued (st\<lparr>callbacks := cbs\<rparr>) = dequeued st"
  by (simp_all add: dequeued_def)

lemma untouched_refl [simp]: "untouched st st"
  by (simp add: untouched_def)

lemma untouched_trans: "untouched a b \<Longrightarrow> untouched b c \<Longrightarrow> untouched a c"
  by (auto simp add: untouched_def)

lemma untouched_simps [simp]:
  "untouched st (st'\<lparr>fact_data_updates := rows\<rparr>) = untouched st st'"
  "untouched st (st'\<lparr>dim_data_sources := srows\<rparr>) = untouched st st'"
  "untouched st (st'\<lparr>idctr := n\<rparr>) = untouched st st'"
  by (simp_all add: untouched_def)

lemma untouched_said:
  "untouched st st' \<Longrightarrow> quiet xs \<Longrightarrow> untouched st (st'\<lparr>trace := trace st' @ xs\<rparr>)"
  by (auto simp add: untouched_def)

lemma untouched_dequeued: "untouched st st' \<Longrightarrow> dequeued st' = dequeued st"
  by (auto simp add: untouched_def dequeued_def quiet_def)

lemma untouched_checked: "untouched st st' \<Longrightarrow> checked (trace st') = checked (trace st)"
  by (auto simp add: untouched_def quiet_def)

lemma untouched_logUpdateError: "untouched st (snd (logUpdateError t e st))"
  by (simp add: logUpdateError_def split: option.splits)

lemma untouched_logUpdateComplete: "untouched st (snd (logUpdateComplete response t st))"
  by (simp add: logUpdateComplete_def Let_def split: option.splits)

lemma untouched_logUpdateStart: "untouched st (snd (logUpdateStart t st))"
  by (simp add: logUpdateStart_def generateUpdateId_def insert_update_def)

lemma untouched_processUpdate_catch: "untouched st (fst (processUpdate_catch e t st))"
  using untouched_logUpdateError [of st "t\<lparr>status := failed, error := message e, endTime := Some (now st)\<rparr>" e]
  by (simp add: processUpdate_catch_def Let_def case_prod_beta)

lemma untouched_processUpdate_try: "untouched st (fst (processUpdate_try t st))"
  by (simp add: processUpdate_try_def untouched_processUpdate_catch)

lemma untouched_processUpdateQueue_catch: "untouched st (fst (processUpdateQueue_catch e t st))"
proof -
  let ?s = "st\<lparr>trace := trace st @ [ProcessingError t e]\<rparr>"
  have "untouched st ?s" using untouched_said [of st st] by simp
  moreover have "untouched ?s (snd (logUpdateError (t\<lparr>status := failed, error := message e\<rparr>) e ?s))"
    by (rule untouched_logUpdateError)
  ultimately have "untouched st (snd (logUpdateError (t\<lparr>status := failed, error := message e\<rparr>) e ?s))"
    by (rule untouched_trans)
  then show ?thesis by (simp add: processUpdateQueue_catch_def Let_def case_prod_beta)
qed

lemma untouched_processUpdate:
  "untouched (st\<lparr>trace := trace st @ [Processing t]\<rparr>) (fst (processUpdate t st))"
proof -
  let ?t = "t\<lparr>status := in_progress, startTime := Some (now st)\<rparr>"
  let ?s = "st\<lparr>trace := trace st @ [Processing t]\<rparr>"
  let ?s2 = "?s\<lparr>trace := trace ?s @ notices ''onUpdateStart'' ?t ?s\<rparr>"
  have "untouched ?s ?s2" using untouched_said [of ?s ?s] by simp
  moreover have "untouched ?s2 (snd (logUpdateStart ?t ?s2))" by (rule untouched_logUpdateStart)
  ultimately have "untouched ?s (snd (logUpdateStart ?t ?s2))" by (rule untouched_trans)
  then show ?thesis by (simp add: processUpdate_def Let_def trigger_simps case_prod_beta)
qed

lemma untouched_suspend:
  "untouched st (fst sl) \<Longrightarrow> untouched st ((suspend i sl)\<lparr>loops := loops st\<rparr>)"
  by (cases sl) (simp add: suspend_def untouched_def)

lemma untouched_turn: "untouched st s \<Longrightarrow> turn s s' \<Longrightarrow> turn st s'"
  by (auto simp add: turn_def untouched_def dequeued_def quiet_def)

lemma turn_loops: "untouched st s \<Longrightarrow> length ls \<le> length (loops st) \<Longrightarrow> turn st (s\<lparr>loops := ls\<rparr>)"
  by (auto simp add: turn_def untouched_def dequeued_def quiet_def)

lemma turn_suspend: "untouched st (fst sl) \<Longrightarrow> turn st (suspend i sl)"
proof -
  assume u: "untouched st (fst sl)"
  then have "length ((loops (fst sl))[i := snd sl]) \<le> length (loops st)"
    by (simp add: untouched_def)
  from turn_loops [OF u this] show ?thesis by (simp add: suspend_def case_prod_beta)
qed

lemma while_empty:
  "updateQueue st = [] \<Longrightarrow>
   processUpdateQueue_while st =
     (st\<lparr>isProcessing := False, trace := trace st @ [DrainCompleted]\<rparr>, None)"
  by (simp add: processUpdateQueue_while_def)

lemma while_shift:
  assumes "updateQueue st = t # q"
  obtains st1 l where "processUpdateQueue_while st = (st1, Some l)"
    and "untouched (st\<lparr>updateQueue := q, trace := trace st @ [Processing t]\<rparr>) st1"
proof -
  obtain st1 l where p: "processUpdate t (st\<lparr>updateQueue := q\<rparr>) = (st1, l)"
    by (cases "processUpdate t (st\<lparr>updateQueue := q\<rparr>)") auto
  from untouched_processUpdate [of "st\<lparr>updateQueue := q\<rparr>" t] p
  have "untouched (st\<lparr>updateQueue := q, trace := trace st @ [Processing t]\<rparr>) st1" by simp
  moreover have "processUpdateQueue_while st = (st1, Some l)"
    using assms p by (simp add: processUpdateQueue_while_def)
  ultimately show ?thesis using that by blast
qed

lemma turn_continue: "turn st (continue_loop i st)"
proof (cases "updateQueue st")
  case Nil
  then show ?thesis
    by (auto simp add: continue_loop_def while_empty turn_def dequeued_def min_def)
next
  case (Cons t q)
  from while_shift [OF Cons] obtain st1 l where w: "processUpdateQueue_while st = (st1, Some l)"
    and u: "untouched (st\<lparr>updateQueue := q, trace := trace st @ [Processing t]\<rparr>) st1" by blast
  from u Cons have "turn st (st1\<lparr>loops := (loops st1)[i := l]\<rparr>)"
    by (auto simp add: turn_def untouched_def dequeued_def quiet_def)
  then show ?thesis by (simp add: continue_loop_def w)
qed

lemma turn_refl [simp]: "turn st st"
  by (simp add: turn_def)

lemma turn_abandon: "turn st (abandon_loop i e st)"
  by (simp add: turn_def abandon_loop_def dequeued_def)

lemma untouched_source: "untouched st (logUpdateComplete_source t st)"
  by (simp add: logUpdateComplete_source_def)

lemma turn_resume: "turn st (resume i st)"
proof (cases "i < length (loops st)")
  case False
  then show ?thesis by (simp add: resume_def)
next
  case True
  show ?thesis
  proof (cases "loops st ! i")
    case (Starting t outcome)
    then show ?thesis using True
      by (cases outcome)
        (simp_all add: resume_def turn_suspend untouched_processUpdateQueue_catch
          untouched_processUpdate_try)
  next
    case (Running t)
    then show ?thesis using True by (simp add: resume_def)
  next
    case (Failing t e outcome)
    let ?s = "st\<lparr>trace := trace st @ notices ''onUpdateError'' t st\<rparr>"
    have "untouched st ?s" using untouched_said [of st st] by simp
    moreover have "untouched ?s (fst (processUpdateQueue_catch e t ?s))"
      by (rule untouched_processUpdateQueue_catch)
    ultimately have "untouched st (fst (processUpdateQueue_catch e t ?s))"
      by (rule untouched_trans)
    then show ?thesis using True Failing
      by (cases outcome)
        (simp_all add: resume_def turn_suspend untouched_processUpdateQueue_catch trigger_simps)
  next
    case (Caught t outcome)
    then show ?thesis using True
      by (cases outcome) (simp_all add: resume_def turn_continue turn_abandon)
  next
    case (Resolving t)
    then show ?thesis using True by (simp add: resume_def)
  next
    case (Completing t outcome)
    then show ?thesis using True
      by (cases outcome)
        (simp_all add: resume_def turn_suspend untouched_processUpdate_catch untouched_source)
  next
    case (Finishing t)
    let ?s = "st\<lparr>trace := trace st @ notices ''onUpdateComplete'' t st @ [UpdateCompleted t]\<rparr>"
    have "untouched st ?s" using untouched_said [of st st] by simp
    from untouched_turn [OF this turn_continue] show ?thesis using True Finishing
      by (simp add: resume_def trigger_simps)
  qed
qed

lemma turn_routine_settles: "turn st (routine_settles i net st)"
proof -
  have "\<And>l. length ((loops st)[i := l]) \<le> length (loops st)" by simp
  from turn_loops [OF untouched_refl this] show ?thesis
    by (simp add: routine_settles_def turn_suspend untouched_processUpdate_catch
        split: loop.splits sum.splits)
qed

lemma turn_hash_settles: "turn st (hash_settles i response st)"
proof -
  have "\<And>t. turn st (suspend i (snd (logUpdateComplete response t st),
           Completing t (fst (logUpdateComplete response t st))))"
    by (rule turn_suspend) (simp add: untouched_logUpdateComplete)
  then show ?thesis
    by (simp add: hash_settles_def case_prod_beta split: loop.splits)
qed

lemma queueUpdate_eq:
  "queueUpdate src st = (if isProcessing st then pushed src st else processUpdateQueue (pushed src st))"
  by (simp add: queueUpdate_def generateUpdateId_def Let_def pushed_def new_task_def)

text \<open>A call of \<open>processUpdateQueue\<close> that passes the guard takes the first task.\<close>

lemma processUpdateQueue_skip:
  "isProcessing st \<or> updateQueue st = [] \<Longrightarrow> processUpdateQueue st = st"
  by (simp add: processUpdateQueue_def)

lemma processUpdateQueue_start:
  assumes "\<not> isProcessing st" and "updateQueue st = t # q"
  obtains st1 l where "processUpdateQueue st = st1\<lparr>loops := loops st @ [l]\<rparr>"
    and "untouched (st\<lparr>isProcessing := True, updateQueue := q,
                      trace := trace st @ [DrainStarted, Processing t]\<rparr>) st1"
proof -
  let ?s = "st\<lparr>isProcessing := True, trace := trace st @ [DrainStarted]\<rparr>"
  have "updateQueue ?s = t # q" using assms(2) by simp
  from while_shift [OF this] obtain st1 l where w: "processUpdateQueue_while ?s = (st1, Some l)"
    and u: "untouched (?s\<lparr>updateQueue := q, trace := trace ?s @ [Processing t]\<rparr>) st1" by blast
  from u have a: "untouched (st\<lparr>isProcessing := True, updateQueue := q,
                      trace := trace st @ [DrainStarted, Processing t]\<rparr>) st1" by simp
  then have "loops st1 = loops st" by (simp add: untouched_def)
  then have "processUpdateQueue st = st1\<lparr>loops := loops st @ [l]\<rparr>"
    using assms w by (simp add: processUpdateQueue_def Let_def)
  with a that show ?thesis by blast
qed

lemma set_insert_js [simp]: "set (insert_js c x xs) = insert x (set xs)"
  by (induction xs) auto

lemma set_sort_js [simp]: "set (sort_js c xs) = set xs"
  by (induction xs) (auto simp: sort_js_def)

lemma length_insert_js [simp]: "length (insert_js c x xs) = Suc (length xs)"
  by (induction xs) auto

lemma length_sort_js [simp]: "length (sort_js c xs) = length xs"
  by (induction xs) (auto simp: sort_js_def)

lemma compare_numeric:
  "numeric a \<Longrightarrow> numeric b \<Longrightarrow> compare_priority a b = Some (prio b - prio a)"
  by (auto simp add: compare_priority_def numeric_def prio_def split: jsvalue.splits)

lemma insert_js_front:
  "numeric x \<Longrightarrow> \<forall>y\<in>set ys. numeric y \<and> prio y \<le> prio x \<Longrightarrow>
   insert_js compare_priority x ys = x # ys"
  by (cases ys) (auto simp add: compare_numeric)

lemma sort_js_Cons: "sort_js c (x # xs) = insert_js c x (sort_js c xs)"
  by (simp add: sort_js_def)

lemma sort_js_push:
  "ordered q \<Longrightarrow> numeric t \<Longrightarrow>
   sort_js compare_priority (q @ [t]) =
     filter (\<lambda>x. prio t \<le> prio x) q @ t # filter (\<lambda>x. prio x < prio t) q"
proof (induction q)
  case Nil
  then show ?case by (simp add: sort_js_def)
next
  case (Cons x q)
  then have oq: "ordered q" and nx: "numeric x" and le: "\<forall>y\<in>set q. prio y \<le> prio x"
    and nq: "\<forall>y\<in>set q. numeric y"
    by (auto simp add: ordered_def)
  note IH = Cons.IH [OF oq Cons.prems(2)]
  show ?case
  proof (cases "prio t \<le> prio x")
    case True
    have "insert_js compare_priority x (filter (\<lambda>x. prio t \<le> prio x) q @ t # filter (\<lambda>x. prio x < prio t) q)
          = x # (filter (\<lambda>x. prio t \<le> prio x) q @ t # filter (\<lambda>x. prio x < prio t) q)"
      using nx le nq True Cons.prems(2) by (intro insert_js_front) auto
    then show ?thesis using True by (simp add: sort_js_Cons IH)
  next
    case False
    then have lt: "prio x < prio t" by simp
    with le have a: "filter (\<lambda>x. prio t \<le> prio x) q = []" "filter (\<lambda>x. prio x < prio t) q = q"
      by (auto simp add: filter_empty_conv filter_id_conv)
    have b: "insert_js compare_priority x q = x # q"
      using nx le nq by (intro insert_js_front) auto
    show ?thesis using lt nx Cons.prems(2)
      by (simp add: sort_js_Cons IH a b compare_numeric)
  qed
qed

lemma ordered_push:
  assumes "ordered q" and "numeric t"
  shows "ordered (sort_js compare_priority (q @ [t]))"
proof -
  have "sorted_wrt (\<lambda>a b. prio b \<le> prio a)
          (filter (\<lambda>x. prio t \<le> prio x) q @ t # filter (\<lambda>x. prio x < prio t) q)"
    using assms(1) by (auto simp add: ordered_def sorted_wrt_append sorted_wrt_filter)
  then show ?thesis using assms by (auto simp add: sort_js_push ordered_def)
qed

lemma ordered_tail: "ordered (t # q) \<Longrightarrow> ordered q"
  by (simp add: ordered_def)

lemma numeric_new_task:
  "type_src src \<notin> set object_prototype_names \<Longrightarrow> numeric (new_task src st)"
  by (auto simp add: numeric_def new_task_def getUpdatePriority_def get_property_def
      split: option.splits)

lemma orderly_turn: "orderly st \<Longrightarrow> turn st st' \<Longrightarrow> orderly st'"
  unfolding orderly_def turn_def by (auto dest: ordered_tail simp add: ordered_def)

lemma orderly_untouched: "untouched st st' \<Longrightarrow> orderly st' = orderly st"
  by (simp add: orderly_def untouched_def)

lemma queueUpdate_busy:
  assumes "isProcessing st"
  shows "queueUpdate src st = pushed src st"
  using assms by (simp add: queueUpdate_eq)

lemma queueUpdate_idle:
  assumes "\<not> isProcessing st" and "updateQueue st = []"
  obtains st1 l where "queueUpdate src st = st1\<lparr>loops := loops st @ [l]\<rparr>"
    and "untouched (st\<lparr>isProcessing := True, updateQueue := [], idctr := Suc (idctr st),
            trace := trace st @ [Queued (new_task src st), DrainStarted,
                                 Processing (new_task src st)]\<rparr>) st1"
proof -
  have a: "\<not> isProcessing (pushed src st)" using assms(1) by (simp add: pushed_def)
  have b: "updateQueue (pushed src st) = new_task src st # []"
    using assms(2) by (simp add: pushed_def sort_js_def)
  from processUpdateQueue_start [OF a b] obtain st1 l where
    p: "processUpdateQueue (pushed src st) = st1\<lparr>loops := loops (pushed src st) @ [l]\<rparr>"
    and u: "untouched ((pushed src st)\<lparr>isProcessing := True, updateQueue := [],
              trace := trace (pushed src st) @ [DrainStarted, Processing (new_task src st)]\<rparr>) st1"
    by blast
  from p assms(1) have "queueUpdate src st = st1\<lparr>loops := loops st @ [l]\<rparr>"
    by (simp add: queueUpdate_eq pushed_def)
  moreover from u have "untouched (st\<lparr>isProcessing := True, updateQueue := [], idctr := Suc (idctr st),
            trace := trace st @ [Queued (new_task src st), DrainStarted,
                                 Processing (new_task src st)]\<rparr>) st1"
    by (simp add: pushed_def untouched_def)
  ultimately show ?thesis using that by blast
qed

lemma orderly_queueUpdate:
  assumes "orderly st" and "type_src src \<notin> set object_prototype_names"
  shows "orderly (queueUpdate src st)"
proof (cases "isProcessing st")
  case True
  then show ?thesis using assms
    by (simp add: queueUpdate_busy pushed_def orderly_def ordered_push numeric_new_task)
next
  case False
  with assms(1) have q: "updateQueue st = []" by (simp add: orderly_def)
  from queueUpdate_idle [OF False q, of src] obtain st1 l where
    e: "queueUpdate src st = st1\<lparr>loops := loops st @ [l]\<rparr>"
    and u: "untouched (st\<lparr>isProcessing := True, updateQueue := [], idctr := Suc (idctr st),
            trace := trace st @ [Queued (new_task src st), DrainStarted,
                                 Processing (new_task src st)]\<rparr>) st1"
    by blast
  from u assms(1) show ?thesis
    by (simp add: e orderly_def untouched_def ordered_def)
qed

lemma orderly_processUpdateQueue: "orderly st \<Longrightarrow> processUpdateQueue st = st"
  by (auto simp add: orderly_def processUpdateQueue_def)

lemma orderly_enqueue_list:
  "orderly st \<Longrightarrow> \<forall>s\<in>set srcs. type_src s \<notin> set object_prototype_names \<Longrightarrow>
   updateSources (foldl (\<lambda>s src. if isActive src then queueUpdate src s else s) st srcs) =
     updateSources st \<and>
   orderly (foldl (\<lambda>s src. if isActive src then queueUpdate src s else s) st srcs)"
proof (induction srcs arbitrary: st)
  case Nil
  then show ?case by simp
next
  case (Cons src srcs)
  have u: "updateSources (queueUpdate src st) = updateSources st"
  proof (cases "isProcessing st")
    case True
    then show ?thesis by (simp add: queueUpdate_busy pushed_def)
  next
    case False
    with Cons.prems(1) have q: "updateQueue st = []" by (simp add: orderly_def)
    from queueUpdate_idle [OF False q, of src] obtain st1 l where
      e: "queueUpdate src st = st1\<lparr>loops := loops st @ [l]\<rparr>"
      and v: "untouched (st\<lparr>isProcessing := True, updateQueue := [], idctr := Suc (idctr st),
            trace := trace st @ [Queued (new_task src st), DrainStarted,
                                 Processing (new_task src st)]\<rparr>) st1"
      by blast
    from v show ?thesis by (simp add: e untouched_def)
  qed
  have o: "orderly (queueUpdate src st)" using Cons.prems by (simp add: orderly_queueUpdate)
  show ?case
  proof (cases "isActive src")
    case True
    with Cons.IH [OF o] Cons.prems(2) u show ?thesis by simp
  next
    case False
    with Cons.IH [OF Cons.prems(1)] Cons.prems(2) show ?thesis by simp
  qed
qed

lemma initializeDataSources_loop_frame:
  "initializeDataSources_loop srcs st = Inr st1 \<Longrightarrow>
   st1 = st\<lparr>dim_data_sources := dim_data_sources st1\<rparr>"
proof (induction srcs arbitrary: st)
  case Nil
  then show ?case by simp
next
  case (Cons src srcs)
  from Cons.prems obtain s where r: "replace_source src st = Inr s"
    and l: "initializeDataSources_loop srcs s = Inr st1"
    by (auto split: sum.splits)
  from r have "s = st\<lparr>dim_data_sources := dim_data_sources s\<rparr>"
    by (auto simp add: replace_source_def split: if_splits)
  moreover from Cons.IH [OF l] have "st1 = s\<lparr>dim_data_sources := dim_data_sources st1\<rparr>" .
  ultimately have "st1 = st\<lparr>dim_data_sources := dim_data_sources s\<rparr>\<lparr>dim_data_sources := dim_data_sources st1\<rparr>"
    by simp
  then show ?case by simp
qed

lemma startMonitoring_fold:
  "foldl (\<lambda>s i. if isActive (updateSources s ! i) then scheduleSourceCheck i s else s) st is =
   st\<lparr>timers := timers st @ map (\<lambda>i. (now st + 60000, i))
                                (filter (\<lambda>i. isActive (updateSources st ! i)) is)\<rparr>"
  by (induction "is" arbitrary: st) (auto simp add: scheduleSourceCheck_def)

lemma startMonitoring_eq:
  "startMonitoring st =
   st\<lparr>timers := timers st @ map (\<lambda>i. (now st + 60000, i))
       (filter (\<lambda>i. isActive (updateSources st ! i)) [0..<length (updateSources st)])\<rparr>"
  by (simp add: startMonitoring_def startMonitoring_fold)

text \<open>What a successful \<open>initialize\<close> comes to.\<close>

lemma initialize_eq:
  assumes "initialize st = Inr (st', waiting)"
  obtains d where
    "(st', waiting) = performInitialDataLoad (startMonitoring (st\<lparr>dim_data_sources := d\<rparr>))"
proof -
  from assms obtain st1 where a: "initializeDataSources st = Inr st1"
    and b: "performInitialDataLoad (startMonitoring st1) = (st', waiting)"
    by (auto simp add: initialize_def split: sum.splits)
  from a have "st1 = st\<lparr>dim_data_sources := dim_data_sources st1\<rparr>"
    unfolding initializeDataSources_def by (rule initializeDataSources_loop_frame)
  with b that show ?thesis by metis
qed

lemma orderly_initialize:
  assumes "orderly st" and "initialize st = Inr (st', waiting)"
  shows "orderly st'"
proof -
  from initialize_eq [OF assms(2)] obtain d where
    e: "(st', waiting) = performInitialDataLoad (startMonitoring (st\<lparr>dim_data_sources := d\<rparr>))"
    by blast
  let ?m = "startMonitoring (st\<lparr>dim_data_sources := d\<rparr>)"
  have m: "orderly ?m" using assms(1) by (simp add: startMonitoring_eq orderly_def)
  then have p: "\<forall>s\<in>set (updateSources ?m). type_src s \<notin> set object_prototype_names"
    by (simp add: orderly_def)
  from orderly_enqueue_list [OF m p]
  have "orderly (foldl (\<lambda>s src. if isActive src then queueUpdate src s else s) ?m (updateSources ?m))"
    by simp
  with m e show ?thesis
    by (auto simp add: performInitialDataLoad_def Let_def orderly_processUpdateQueue split: if_splits)
qed

lemma map_touch [simp]:
  "map type_src (xs[i := (xs ! i)\<lparr>lastCheckTime := v\<rparr>]) = map type_src xs"
  "map checkInterval (xs[i := (xs ! i)\<lparr>lastCheckTime := v\<rparr>]) = map checkInterval xs"
  "map isActive (xs[i := (xs ! i)\<lparr>lastCheckTime := v\<rparr>]) = map isActive xs"
  by (induction xs arbitrary: i; simp add: nth_Cons split: nat.splits)+

lemma orderly_timer_fires: "orderly st \<Longrightarrow> orderly (timer_fires k st)"
proof -
  assume o: "orderly st"
  have "\<And>i v. set (map type_src ((updateSources st)[i := (updateSources st ! i)\<lparr>lastCheckTime := v\<rparr>])) =
      set (map type_src (updateSources st))" by (simp only: map_touch)
  then have "\<And>i v. \<forall>s\<in>set ((updateSources st)[i := (updateSources st ! i)\<lparr>lastCheckTime := v\<rparr>]).
      type_src s \<notin> set object_prototype_names"
    using o unfolding orderly_def by (metis (no_types, lifting) image_iff list.set_map)
  then show ?thesis using o
    by (simp add: timer_fires_def checkSource_begin_def orderly_def)
qed

lemma detectChanges_untouched: "untouched st (snd (detectChanges response src st))"
  by (simp add: detectChanges_def Let_def untouched_def quiet_def)

lemma orderly_check_settles:
  assumes "orderly st"
  shows "orderly (check_settles j response st)"
proof (cases "j < length (checks st) \<and> checks st ! j < length (updateSources st)")
  case False
  then show ?thesis using assms by (auto simp add: check_settles_def)
next
  case True
  define st0 where "st0 = st\<lparr>checks := take j (checks st) @ drop (Suc j) (checks st)\<rparr>"
  define src where "src = updateSources st0 ! (checks st ! j)"
  define st1 where "st1 = snd (detectChanges response src st0)"
  have o0: "orderly st0" using assms by (simp add: st0_def orderly_def)
  have o1: "orderly st1" using o0 detectChanges_untouched [of st0 response src]
    by (simp add: st1_def orderly_untouched)
  have "src \<in> set (updateSources st0)" using True by (simp add: src_def st0_def)
  with o0 have p: "type_src src \<notin> set object_prototype_names" by (simp add: orderly_def)
  have a: "orderly (queueUpdate src (st1\<lparr>trace := trace st1 @ [UpdatesDetected (name src)]\<rparr>))"
    using o1 p by (intro orderly_queueUpdate) (simp_all add: orderly_def)
  have b: "orderly (st1\<lparr>trace := trace st1 @ [NoUpdates (name src)]\<rparr>)"
    using o1 by (simp add: orderly_def)
  have c: "\<And>s x y. orderly (s\<lparr>dim_data_sources := x, timers := y\<rparr>) = orderly s"
    by (simp add: orderly_def)
  show ?thesis using True a b
    by (simp add: check_settles_def checkSource_resume_def Let_def case_prod_beta
        st0_def [symmetric] src_def [symmetric] st1_def [symmetric] c)
qed

lemma orderly_step:
  assumes "orderly st" and "plain_event e"
  shows "orderly (step st e)"
proof (cases e)
  case Initialize
  then show ?thesis using assms(1) orderly_initialize [OF assms(1)] by (auto split: sum.splits)
next
  case (Register ev cb)
  then show ?thesis using assms(1)
    by (auto simp add: on_def orderly_def split: sum.splits property.splits)
next
  case (Enqueue src)
  then show ?thesis using assms by (simp add: orderly_queueUpdate)
next
  case (Resume i)
  then show ?thesis using orderly_turn [OF assms(1) turn_resume] by simp
next
  case (RoutineSettles i net)
  then show ?thesis using orderly_turn [OF assms(1) turn_routine_settles] by simp
next
  case (HashSettles i response)
  then show ?thesis using orderly_turn [OF assms(1) turn_hash_settles] by simp
next
  case (Advance d)
  then show ?thesis using assms(1) by (simp add: orderly_def)
next
  case (TimerFires k)
  then show ?thesis using assms(1) by (simp add: orderly_timer_fires)
next
  case (CheckSettles j response)
  then show ?thesis using assms(1) by (simp add: orderly_check_settles)
qed

lemma orderly_run: "orderly st \<Longrightarrow> \<forall>e\<in>set evs. plain_event e \<Longrightarrow> orderly (run st evs)"
  unfolding run_def by (induction evs arbitrary: st) (simp_all add: orderly_step)

lemma orderly_constructor: "orderly (constructor updates sources pokemon clock gen)"
  by (simp add: orderly_def ordered_def constructor_def default_sources_def
      object_prototype_names_def)

text \<open>Without an enqueue, the queue only loses its first task, to the dequeued sequence.\<close>

lemma quiet_step:
  assumes "\<not> enqueues e"
  shows "updateQueue (step st e) = updateQueue st \<and> dequeued (step st e) = dequeued st \<or>
     (\<exists>t. updateQueue st = t # updateQueue (step st e) \<and>
        dequeued (step st e) = dequeued st @ [t])"
proof -
  have t: "\<And>st'. turn st st' \<Longrightarrow>
     updateQueue st' = updateQueue st \<and> dequeued st' = dequeued st \<or>
     (\<exists>t. updateQueue st = t # updateQueue st' \<and> dequeued st' = dequeued st @ [t])"
    by (auto simp add: turn_def)
  show ?thesis
  proof (cases e)
    case (Register ev cb)
    then show ?thesis by (auto simp add: on_def split: sum.splits property.splits)
  next
    case (Resume i)
    then show ?thesis using t [OF turn_resume] by simp
  next
    case (RoutineSettles i net)
    then show ?thesis using t [OF turn_routine_settles] by simp
  next
    case (HashSettles i response)
    then show ?thesis using t [OF turn_hash_settles] by simp
  next
    case (Advance d)
    then show ?thesis by simp
  next
    case (TimerFires k)
    then show ?thesis by (simp add: timer_fires_def checkSource_begin_def dequeued_def)
  qed (use assms in simp_all)
qed

lemma quiet_run:
  "\<forall>e\<in>set evs. \<not> enqueues e \<Longrightarrow>
   \<exists>k. dequeued (run st evs) = dequeued st @ take k (updateQueue st) \<and>
       updateQueue (run st evs) = drop k (updateQueue st)"
proof (induction evs arbitrary: st)
  case Nil
  have "dequeued st = dequeued st @ take 0 (updateQueue st) \<and> updateQueue st = drop 0 (updateQueue st)"
    by simp
  then show ?case unfolding run_def by (metis foldl_Nil)
next
  case (Cons e evs)
  from Cons.prems have ne: "\<not> enqueues e" and r: "\<forall>e\<in>set evs. \<not> enqueues e" by simp_all
  from Cons.IH [OF r, of "step st e"] obtain k where
    k: "dequeued (run (step st e) evs) = dequeued (step st e) @ take k (updateQueue (step st e))"
       "updateQueue (run (step st e) evs) = drop k (updateQueue (step st e))" by blast
  have e: "run st (e # evs) = run (step st e) evs" by (simp add: run_def)
  from quiet_step [OF ne, of st] show ?case
  proof
    assume "updateQueue (step st e) = updateQueue st \<and> dequeued (step st e) = dequeued st"
    with k e show ?thesis by metis
  next
    assume "\<exists>t. updateQueue st = t # updateQueue (step st e) \<and>
        dequeued (step st e) = dequeued st @ [t]"
    then obtain t where t: "updateQueue st = t # updateQueue (step st e)"
      "dequeued (step st e) = dequeued st @ [t]" by blast
    have "dequeued (run st (e # evs)) = dequeued st @ take (Suc k) (updateQueue st) \<and>
       updateQueue (run st (e # evs)) = drop (Suc k) (updateQueue st)"
      using k t by (simp add: e)
    then show ?thesis by blast
  qed
qed

lemma stuck_refl: "halted st \<Longrightarrow> stuck st st"
  by (simp add: stuck_def)

lemma stuck_trans: "stuck a b \<Longrightarrow> stuck b c \<Longrightarrow> stuck a c"
  by (auto simp add: stuck_def)

lemma stuck_queueUpdate: "halted st \<Longrightarrow> stuck st (queueUpdate src st)"
  by (auto simp add: halted_def stuck_def queueUpdate_busy pushed_def dequeued_def)

lemma stuck_enqueue_list:
  "halted st \<Longrightarrow> stuck st (foldl (\<lambda>s src. if isActive src then queueUpdate src s else s) st srcs)"
proof (induction srcs arbitrary: st)
  case Nil
  then show ?case by (simp add: stuck_refl)
next
  case (Cons src srcs)
  show ?case
  proof (cases "isActive src")
    case True
    from stuck_queueUpdate [OF Cons.prems] have s: "stuck st (queueUpdate src st)" .
    then have "halted (queueUpdate src st)" by (simp add: stuck_def)
    from stuck_trans [OF s Cons.IH [OF this]] True show ?thesis by simp
  next
    case False
    with Cons.IH [OF Cons.prems] show ?thesis by simp
  qed
qed

lemma stuck_initialize:
  assumes "halted st" and "initialize st = Inr (st', waiting)"
  shows "stuck st st'"
proof -
  from initialize_eq [OF assms(2)] obtain d where
    e: "(st', waiting) = performInitialDataLoad (startMonitoring (st\<lparr>dim_data_sources := d\<rparr>))"
    by blast
  let ?m = "startMonitoring (st\<lparr>dim_data_sources := d\<rparr>)"
  have m: "stuck st ?m" using assms(1)
    by (simp add: startMonitoring_eq stuck_def halted_def dequeued_def)
  then have h: "halted ?m" by (simp add: stuck_def)
  let ?q = "foldl (\<lambda>s src. if isActive src then queueUpdate src s else s) ?m (updateSources ?m)"
  have q: "stuck st ?q" using stuck_trans [OF m stuck_enqueue_list [OF h]] .
  then have "isProcessing ?q" by (simp add: stuck_def halted_def)
  then have "processUpdateQueue ?q = ?q" by (simp add: processUpdateQueue_skip)
  with e m q show ?thesis
    by (auto simp add: performInitialDataLoad_def Let_def split: if_splits)
qed

lemma stuck_check_settles:
  assumes "halted st"
  shows "stuck st (check_settles j response st)"
proof (cases "j < length (checks st) \<and> checks st ! j < length (updateSources st)")
  case False
  then show ?thesis using assms by (auto simp add: check_settles_def stuck_refl)
next
  case True
  define st0 where "st0 = st\<lparr>checks := take j (checks st) @ drop (Suc j) (checks st)\<rparr>"
  define src where "src = updateSources st0 ! (checks st ! j)"
  define st1 where "st1 = snd (detectChanges response src st0)"
  have s1: "stuck st st1"
    using assms detectChanges_untouched [of st0 response src] untouched_dequeued [of st0 st1]
    by (simp add: st1_def stuck_def halted_def untouched_def)
      (simp add: st0_def detectChanges_def Let_def)
  have a: "stuck st (st1\<lparr>trace := trace st1 @ [UpdatesDetected (name src)]\<rparr>)"
    using s1 by (simp add: stuck_def halted_def dequeued_def)
  then have "halted (st1\<lparr>trace := trace st1 @ [UpdatesDetected (name src)]\<rparr>)"
    by (simp add: stuck_def)
  from stuck_trans [OF a stuck_queueUpdate [OF this]]
  have b: "stuck st (queueUpdate src (st1\<lparr>trace := trace st1 @ [UpdatesDetected (name src)]\<rparr>))" .
  have c: "stuck st (st1\<lparr>trace := trace st1 @ [NoUpdates (name src)]\<rparr>)"
    using s1 by (simp add: stuck_def halted_def dequeued_def)
  have d: "\<And>s x y. stuck st (s\<lparr>dim_data_sources := x, timers := y\<rparr>) = stuck st s"
    by (simp add: stuck_def halted_def)
  show ?thesis using True b c
    by (simp add: check_settles_def checkSource_resume_def Let_def case_prod_beta
        st0_def [symmetric] src_def [symmetric] st1_def [symmetric] d)
qed

lemma stuck_step:
  assumes "halted st"
  shows "stuck st (step st e)"
proof (cases e)
  case Initialize
  then show ?thesis using assms stuck_initialize [OF assms]
    by (auto simp add: stuck_refl split: sum.splits)
next
  case (Register ev cb)
  then show ?thesis using assms
    by (auto simp add: on_def stuck_def halted_def dequeued_def split: sum.splits property.splits)
next
  case (Enqueue src)
  then show ?thesis using assms by (simp add: stuck_queueUpdate)
next
  case (Resume i)
  then show ?thesis using assms by (simp add: resume_def halted_def stuck_def)
next
  case (RoutineSettles i net)
  then show ?thesis using assms by (simp add: routine_settles_def halted_def stuck_def)
next
  case (HashSettles i response)
  then show ?thesis using assms by (simp add: hash_settles_def halted_def stuck_def)
next
  case (Advance d)
  then show ?thesis using assms by (simp add: stuck_def halted_def dequeued_def)
next
  case (TimerFires k)
  then show ?thesis using assms
    by (simp add: timer_fires_def checkSource_begin_def stuck_def halted_def dequeued_def)
next
  case (CheckSettles j response)
  then show ?thesis using assms by (simp add: stuck_check_settles)
qed

lemma stuck_run: "halted st \<Longrightarrow> stuck st (run st evs)"
proof (induction evs arbitrary: st)
  case Nil
  then show ?case by (simp add: run_def stuck_refl)
next
  case (Cons e evs)
  from stuck_step [OF Cons.prems] have s: "stuck st (step st e)" .
  then have "halted (step st e)" by (simp add: stuck_def)
  from stuck_trans [OF s Cons.IH [OF this]] show ?case by (simp add: run_def)
qed

lemma schedule_simps [simp]:
  "schedule (st\<lparr>isProcessing := b\<rparr>) = schedule st"
  "schedule (st\<lparr>updateQueue := q\<rparr>) = schedule st"
  "schedule (st\<lparr>loops := ls\<rparr>) = schedule st"
  "schedule (st\<lparr>idctr := n\<rparr>) = schedule st"
  "schedule (st\<lparr>fact_data_updates := rows\<rparr>) = schedule st"
  "schedule (st\<lparr>dim_data_sources := srows\<rparr>) = schedule st"
  "schedule (st\<lparr>callbacks := cbs\<rparr>) = schedule st"
  by (simp_all add: schedule_def)

lemma schedule_untouched: "untouched st st' \<Longrightarrow> schedule st' = schedule st"
  by (auto simp add: schedule_def untouched_def quiet_def)

lemma schedule_turn: "turn st st' \<Longrightarrow> schedule st' = schedule st"
  by (simp add: schedule_def turn_def)

lemma schedule_processUpdateQueue: "schedule (processUpdateQueue st) = schedule st"
proof (cases "isProcessing st \<or> updateQueue st = []")
  case True
  then show ?thesis by (simp add: processUpdateQueue_skip)
next
  case False
  then obtain t q where q: "updateQueue st = t # q" by (cases "updateQueue st") auto
  from False have "\<not> isProcessing st" by simp
  from processUpdateQueue_start [OF this q] obtain st1 l where
    p: "processUpdateQueue st = st1\<lparr>loops := loops st @ [l]\<rparr>"
    and u: "untouched (st\<lparr>isProcessing := True, updateQueue := q,
                      trace := trace st @ [DrainStarted, Processing t]\<rparr>) st1" by blast
  from schedule_untouched [OF u] show ?thesis by (simp add: p schedule_def)
qed

lemma schedule_queueUpdate: "schedule (queueUpdate src st) = schedule st"
proof -
  have "schedule (pushed src st) = schedule st" by (simp add: schedule_def pushed_def)
  then show ?thesis by (simp add: queueUpdate_eq schedule_processUpdateQueue)
qed

lemma schedule_resume: "schedule (resume i st) = schedule st"
  using turn_resume by (rule schedule_turn)

lemma schedule_routine_settles: "schedule (routine_settles i net st) = schedule st"
  using turn_routine_settles by (rule schedule_turn)

lemma schedule_hash_settles: "schedule (hash_settles i response st) = schedule st"
  using turn_hash_settles by (rule schedule_turn)

lemma schedule_on: "on ev cb st = Inr st' \<Longrightarrow> schedule st' = schedule st"
  by (auto simp add: on_def split: property.splits)

lemma schedule_enqueue_list:
  "schedule (foldl (\<lambda>s src. if isActive src then queueUpdate src s else s) st srcs) = schedule st"
  by (induction srcs arbitrary: st) (simp_all add: schedule_queueUpdate)

lemma schedule_performInitialDataLoad: "schedule (fst (performInitialDataLoad st)) = schedule st"
  by (simp add: performInitialDataLoad_def Let_def schedule_processUpdateQueue schedule_enqueue_list)

lemma initializeDataSources_loop_ok:
  "\<forall>s\<in>set srcs. type_src s \<in> set source_types \<Longrightarrow>
   \<exists>d. initializeDataSources_loop srcs st = Inr (st\<lparr>dim_data_sources := d\<rparr>)"
proof (induction srcs arbitrary: st)
  case Nil
  have "st = st\<lparr>dim_data_sources := dim_data_sources st\<rparr>" by simp
  then show ?case by (metis initializeDataSources_loop.simps(1))
next
  case (Cons src srcs)
  let ?s = "st\<lparr>dim_data_sources :=
             filter (\<lambda>r. pk_source_id r \<noteq> id_src src) (dim_data_sources st) @
             [\<lparr>pk_source_id = id_src src, source_type = type_src src,
               last_check_timestamp = None, last_update_timestamp = None\<rparr>]\<rparr>"
  from Cons.prems have "\<forall>s\<in>set srcs. type_src s \<in> set source_types" by simp
  from Cons.IH [OF this, of ?s] obtain d where
    "initializeDataSources_loop srcs ?s = Inr (?s\<lparr>dim_data_sources := d\<rparr>)" by blast
  moreover have "?s\<lparr>dim_data_sources := d\<rparr> = st\<lparr>dim_data_sources := d\<rparr>" by simp
  ultimately have "initializeDataSources_loop (src # srcs) st = Inr (st\<lparr>dim_data_sources := d\<rparr>)"
    using Cons.prems by (simp add: replace_source_def)
  then show ?case by blast
qed

lemma configured_length: "configured st \<Longrightarrow> length (updateSources st) = length default_sources"
  by (auto simp add: configured_def dest: map_eq_imp_length_eq)

lemma configured_types:
  assumes "configured st"
  shows "\<forall>s\<in>set (updateSources st). type_src s \<in> set source_types"
proof -
  from assms have "map type_src (updateSources st) = map type_src default_sources"
    by (simp add: configured_def)
  then have "set (map type_src (updateSources st)) = set (map type_src default_sources)"
    by (rule arg_cong)
  also have "\<dots> \<subseteq> set source_types" by (simp add: default_sources_def source_types_def)
  finally show ?thesis by auto
qed

lemma default_active: "i < length default_sources \<Longrightarrow> isActive (default_sources ! i)"
proof -
  assume "i < length default_sources"
  then have "default_sources ! i \<in> set default_sources" by (rule nth_mem)
  moreover have "\<forall>s\<in>set default_sources. isActive s" by (simp add: default_sources_def)
  ultimately show ?thesis by blast
qed

lemma interval_grace: "i < length default_sources \<Longrightarrow> 60000 \<le> checkInterval (default_sources ! i)"
proof -
  assume "i < length default_sources"
  then have "default_sources ! i \<in> set default_sources" by (rule nth_mem)
  moreover have "\<forall>s\<in>set default_sources. 60000 \<le> checkInterval s"
    by (simp add: default_sources_def)
  ultimately show ?thesis by blast
qed

lemma configured_active:
  assumes "configured st" and "i < length (updateSources st)"
  shows "isActive (updateSources st ! i)"
proof -
  from assms have l: "i < length default_sources" by (simp add: configured_length)
  have "isActive (updateSources st ! i) = map isActive (updateSources st) ! i"
    using assms(2) by simp
  also have "\<dots> = map isActive default_sources ! i" using assms(1) by (simp add: configured_def)
  also have "\<dots> = isActive (default_sources ! i)" using l by simp
  finally show ?thesis using default_active [OF l] by simp
qed

lemma configured_interval:
  assumes "configured st" and "i < length default_sources"
  shows "checkInterval (updateSources st ! i) = checkInterval (default_sources ! i)"
proof -
  from assms have l: "i < length (updateSources st)" by (simp add: configured_length)
  then have "checkInterval (updateSources st ! i) = map checkInterval (updateSources st) ! i"
    by simp
  also have "\<dots> = map checkInterval default_sources ! i"
    using assms(1) by (simp add: configured_def)
  finally show ?thesis using assms(2) by simp
qed

lemma schedule_Initialize:
  assumes "configured st"
  shows "schedule (step st Initialize) =
     (updateSources st, checks st,
      timers st @ map (\<lambda>i. (now st + 60000, i)) [0..<length default_sources],
      now st, checked (trace st))"
proof -
  from initializeDataSources_loop_ok [OF configured_types [OF assms], of st] obtain d where
    d: "initializeDataSources st = Inr (st\<lparr>dim_data_sources := d\<rparr>)"
    by (auto simp add: initializeDataSources_def)
  let ?s = "st\<lparr>dim_data_sources := d\<rparr>"
  have f: "filter (\<lambda>i. isActive (updateSources st ! i)) [0..<length (updateSources st)] =
      [0..<length default_sources]"
    using configured_active [OF assms] by (simp add: configured_length [OF assms])
  have "step st Initialize = fst (performInitialDataLoad (startMonitoring ?s))"
    by (simp add: initialize_def d split: prod.splits)
  then have "schedule (step st Initialize) = schedule (startMonitoring ?s)"
    by (simp add: schedule_performInitialDataLoad)
  also have "\<dots> = (updateSources st, checks st,
      timers st @ map (\<lambda>i. (now st + 60000, i)) [0..<length default_sources],
      now st, checked (trace st))"
    by (simp add: startMonitoring_eq schedule_def f)
  finally show ?thesis .
qed

lemma schedule_timer_fires:
  assumes "k < length (timers st)" and "fst (timers st ! k) \<le> now st"
    and "snd (timers st ! k) < length (updateSources st)"
  shows "schedule (timer_fires k st) =
     ((updateSources st)[snd (timers st ! k) :=
          (updateSources st ! snd (timers st ! k))\<lparr>lastCheckTime := Some (now st)\<rparr>],
      checks st @ [snd (timers st ! k)],
      take k (timers st) @ drop (Suc k) (timers st), now st,
      checked (trace st) @ [name (updateSources st ! snd (timers st ! k))])"
  using assms by (simp add: timer_fires_def checkSource_begin_def schedule_def)

lemma schedule_timer_idle:
  "\<not> (k < length (timers st) \<and> fst (timers st ! k) \<le> now st \<and>
      snd (timers st ! k) < length (updateSources st)) \<Longrightarrow> timer_fires k st = st"
  by (auto simp add: timer_fires_def)

lemma queueUpdate_schedule_fields [simp]:
  "updateSources (queueUpdate src st) = updateSources st"
  "checks (queueUpdate src st) = checks st"
  "timers (queueUpdate src st) = timers st"
  "now (queueUpdate src st) = now st"
  "checked (trace (queueUpdate src st)) = checked (trace st)"
  using schedule_queueUpdate [of src st] by (simp_all add: schedule_def)

lemma schedule_check_settles:
  assumes "j < length (checks st)" and "checks st ! j < length (updateSources st)"
  shows "schedule (check_settles j response st) =
     (updateSources st, take j (checks st) @ drop (Suc j) (checks st),
      timers st @ [(now st + checkInterval (updateSources st ! (checks st ! j)), checks st ! j)],
      now st, checked (trace st))"
proof -
  define st0 where "st0 = st\<lparr>checks := take j (checks st) @ drop (Suc j) (checks st)\<rparr>"
  define src where "src = updateSources st0 ! (checks st ! j)"
  define st1 where "st1 = snd (detectChanges response src st0)"
  have s1: "schedule st1 = schedule st0"
    unfolding st1_def using detectChanges_untouched by (rule schedule_untouched)
  have a: "schedule (queueUpdate src (st1\<lparr>trace := trace st1 @ [UpdatesDetected (name src)]\<rparr>)) =
      schedule st0"
    using s1 by (simp add: schedule_queueUpdate) (simp add: schedule_def)
  have b: "schedule (st1\<lparr>trace := trace st1 @ [NoUpdates (name src)]\<rparr>) = schedule st0"
    using s1 by (simp add: schedule_def)
  have c: "\<And>s x y. schedule s = schedule st0 \<Longrightarrow>
      schedule (s\<lparr>dim_data_sources := x, timers := timers s @ y\<rparr>) =
      (updateSources st0, checks st0, timers st0 @ y, now st0, checked (trace st0))"
    by (simp add: schedule_def)
  have d: "\<And>s. schedule s = schedule st0 \<Longrightarrow> now s = now st0" by (simp add: schedule_def)
  show ?thesis using assms c [OF a] c [OF b] d [OF a] d [OF b]
    by (simp add: check_settles_def checkSource_resume_def Let_def case_prod_beta
        st0_def [symmetric] src_def [symmetric] st1_def [symmetric])
      (simp add: st0_def src_def)
qed

lemma schedule_check_idle:
  "\<not> (j < length (checks st) \<and> checks st ! j < length (updateSources st)) \<Longrightarrow>
   check_settles j response st = st"
  by (auto simp add: check_settles_def)

lemma timed_cong: "schedule st' = schedule st \<Longrightarrow> timed clock st' = timed clock st"
  by (simp add: schedule_def timed_def configured_def)

lemma scheduled_cong: "schedule st' = schedule st \<Longrightarrow> scheduled st' = scheduled st"
  by (simp add: schedule_def scheduled_def)

lemma schedule_fields:
  "schedule st' = (us, cs, ts, n, tr) \<Longrightarrow>
   updateSources st' = us \<and> checks st' = cs \<and> timers st' = ts \<and> now st' = n \<and>
   checked (trace st') = tr"
  by (simp add: schedule_def)

lemma set_remove_nth:
  "k < length xs \<Longrightarrow> set xs = insert (xs ! k) (set (take k xs @ drop (Suc k) xs))"
proof -
  assume "k < length xs"
  then have "xs = take k xs @ xs ! k # drop (Suc k) xs" by (rule id_take_nth_drop)
  then have "set xs = set (take k xs @ xs ! k # drop (Suc k) xs)" by simp
  then show ?thesis by simp
qed

lemma timed_Initialize:
  assumes "timed clock st"
  shows "timed clock (step st Initialize)"
proof -
  from assms have c: "configured st" by (simp add: timed_def)
  from schedule_fields [OF schedule_Initialize [OF c]] assms show ?thesis
    by (auto simp add: timed_def configured_def)
qed

lemma timed_timer_fires:
  assumes "timed clock st"
  shows "timed clock (timer_fires k st)"
proof (cases "k < length (timers st) \<and> fst (timers st ! k) \<le> now st \<and>
      snd (timers st ! k) < length (updateSources st)")
  case False
  then show ?thesis using assms by (simp add: schedule_timer_idle)
next
  case True
  then have k: "k < length (timers st)" and due: "fst (timers st ! k) \<le> now st"
    and i: "snd (timers st ! k) < length (updateSources st)" by simp_all
  note f = schedule_fields [OF schedule_timer_fires [OF k due i]]
  from k have m: "timers st ! k \<in> set (timers st)" by simp
  with assms have g: "clock + 60000 \<le> fst (timers st ! k)"
    and b: "snd (timers st ! k) < length default_sources" by (simp_all add: timed_def)
  have "configured st" using assms by (simp add: timed_def)
  then have c: "configured (timer_fires k st)" using f by (simp add: configured_def)
  have t: "\<forall>x\<in>set (timers (timer_fires k st)). clock + 60000 \<le> fst x \<and> snd x < length default_sources"
    using assms f set_remove_nth [OF k] by (auto simp add: timed_def)
  have n: "\<not> now (timer_fires k st) < clock + 60000" using f g due by simp
  from assms f b c t n show ?thesis by (auto simp add: timed_def)
qed

lemma timed_check_settles:
  assumes "timed clock st"
  shows "timed clock (check_settles j response st)"
proof (cases "j < length (checks st) \<and> checks st ! j < length (updateSources st)")
  case False
  then show ?thesis using assms by (simp add: schedule_check_idle)
next
  case True
  then have j: "j < length (checks st)" and i: "checks st ! j < length (updateSources st)"
    by simp_all
  note f = schedule_fields [OF schedule_check_settles [OF j i]]
  from assms have c: "configured st" by (simp add: timed_def)
  from j have "checks st \<noteq> []" by auto
  with assms have n: "clock + 60000 \<le> now st" by (auto simp add: timed_def)
  from j assms have b: "checks st ! j < length default_sources" by (simp add: timed_def)
  have c': "configured (check_settles j response st)" using c f by (simp add: configured_def)
  have t: "\<forall>x\<in>set (timers (check_settles j response st)).
      clock + 60000 \<le> fst x \<and> snd x < length default_sources"
    using assms f n b by (auto simp add: timed_def)
  have k: "\<forall>i\<in>set (checks (check_settles j response st)). i < length default_sources"
    using assms f set_remove_nth [OF j] by (auto simp add: timed_def)
  from assms f n c' t k show ?thesis by (simp add: timed_def)
qed

lemma timed_step:
  assumes "timed clock st"
  shows "timed clock (step st e)"
proof (cases e)
  case Initialize
  then show ?thesis using timed_Initialize [OF assms] by simp
next
  case (Register ev cb)
  then show ?thesis using assms by (auto simp add: timed_cong [OF schedule_on] split: sum.splits)
next
  case (Enqueue src)
  then show ?thesis using assms by (simp add: timed_cong [OF schedule_queueUpdate])
next
  case (Resume i)
  then show ?thesis using assms by (simp add: timed_cong [OF schedule_resume])
next
  case (RoutineSettles i net)
  then show ?thesis using assms by (simp add: timed_cong [OF schedule_routine_settles])
next
  case (HashSettles i response)
  then show ?thesis using assms by (simp add: timed_cong [OF schedule_hash_settles])
next
  case (Advance d)
  then show ?thesis using assms by (auto simp add: timed_def configured_def)
next
  case (TimerFires k)
  then show ?thesis using assms by (simp add: timed_timer_fires)
next
  case (CheckSettles j response)
  then show ?thesis using assms by (simp add: timed_check_settles)
qed

lemma timed_run: "timed clock st \<Longrightarrow> timed clock (run st evs)"
  unfolding run_def by (induction evs arbitrary: st) (simp_all add: timed_step)

lemma timed_constructor: "timed clock (constructor updates sources pokemon clock gen)"
  by (simp add: timed_def configured_def constructor_def)

lemma scheduled_Initialize:
  assumes "configured st"
  shows "scheduled (step st Initialize)"
  unfolding scheduled_def
proof (intro allI impI)
  fix i
  assume "i < length default_sources"
  then have "(now st + 60000, i) \<in> set (timers (step st Initialize))"
    using schedule_fields [OF schedule_Initialize [OF assms]] by simp
  then have "snd (now st + 60000, i) \<in> snd ` set (timers (step st Initialize))" by (rule imageI)
  then show "i \<in> snd ` set (timers (step st Initialize)) \<or> i \<in> set (checks (step st Initialize))"
    by simp
qed

lemma scheduled_timer_fires:
  assumes "timed clock st" and "scheduled st"
  shows "scheduled (timer_fires k st)"
proof (cases "k < length (timers st) \<and> fst (timers st ! k) \<le> now st \<and>
      snd (timers st ! k) < length (updateSources st)")
  case False
  then show ?thesis using assms by (simp add: schedule_timer_idle)
next
  case True
  then have k: "k < length (timers st)" and due: "fst (timers st ! k) \<le> now st"
    and i: "snd (timers st ! k) < length (updateSources st)" by simp_all
  note f = schedule_fields [OF schedule_timer_fires [OF k due i]]
  show ?thesis unfolding scheduled_def
  proof (intro allI impI)
    fix i
    assume "i < length default_sources"
    with assms(2) have "i \<in> snd ` set (timers st) \<or> i \<in> set (checks st)"
      by (simp add: scheduled_def)
    then show "i \<in> snd ` set (timers (timer_fires k st)) \<or> i \<in> set (checks (timer_fires k st))"
    proof
      assume "i \<in> snd ` set (timers st)"
      then obtain x where x: "x \<in> set (timers st)" and s: "i = snd x" by blast
      from x set_remove_nth [OF k]
      have "x = timers st ! k \<or> x \<in> set (take k (timers st) @ drop (Suc k) (timers st))"
        by blast
      then show ?thesis
      proof
        assume "x = timers st ! k"
        with s f show ?thesis by simp
      next
        assume "x \<in> set (take k (timers st) @ drop (Suc k) (timers st))"
        then have "snd x \<in> snd ` set (take k (timers st) @ drop (Suc k) (timers st))"
          by (rule imageI)
        with s f show ?thesis by simp
      qed
    next
      assume "i \<in> set (checks st)"
      with f show ?thesis by simp
    qed
  qed
qed

lemma scheduled_check_settles:
  assumes "timed clock st" and "scheduled st"
  shows "scheduled (check_settles j response st)"
proof (cases "j < length (checks st) \<and> checks st ! j < length (updateSources st)")
  case False
  then show ?thesis using assms by (simp add: schedule_check_idle)
next
  case True
  then have j: "j < length (checks st)" and i: "checks st ! j < length (updateSources st)"
    by simp_all
  note f = schedule_fields [OF schedule_check_settles [OF j i]]
  show ?thesis unfolding scheduled_def
  proof (intro allI impI)
    fix i
    assume "i < length default_sources"
    with assms(2) have "i \<in> snd ` set (timers st) \<or> i \<in> set (checks st)"
      by (simp add: scheduled_def)
    then show "i \<in> snd ` set (timers (check_settles j response st)) \<or>
        i \<in> set (checks (check_settles j response st))"
    proof
      assume "i \<in> snd ` set (timers st)"
      then have "i \<in> snd ` set (timers st @
          [(now st + checkInterval (updateSources st ! (checks st ! j)), checks st ! j)])"
        by auto
      with f show ?thesis by simp
    next
      assume "i \<in> set (checks st)"
      with set_remove_nth [OF j]
      have "i = checks st ! j \<or> i \<in> set (take j (checks st) @ drop (Suc j) (checks st))"
        by blast
      then show ?thesis
      proof
        assume "i = checks st ! j"
        then have "i \<in> snd ` set (timers st @
            [(now st + checkInterval (updateSources st ! (checks st ! j)), checks st ! j)])"
          by (simp add: image_iff)
        with f show ?thesis by simp
      next
        assume "i \<in> set (take j (checks st) @ drop (Suc j) (checks st))"
        with f show ?thesis by simp
      qed
    qed
  qed
qed

lemma scheduled_step:
  assumes "timed clock st" and "scheduled st \<or> e = Initialize"
  shows "scheduled (step st e)"
proof (cases e)
  case Initialize
  from assms(1) have "configured st" by (simp add: timed_def)
  from scheduled_Initialize [OF this] Initialize show ?thesis by simp
next
  case (Register ev cb)
  then show ?thesis using assms by (auto simp add: scheduled_cong [OF schedule_on] split: sum.splits)
next
  case (Enqueue src)
  then show ?thesis using assms by (simp add: scheduled_cong [OF schedule_queueUpdate])
next
  case (Resume i)
  then show ?thesis using assms by (simp add: scheduled_cong [OF schedule_resume])
next
  case (RoutineSettles i net)
  then show ?thesis using assms by (simp add: scheduled_cong [OF schedule_routine_settles])
next
  case (HashSettles i response)
  then show ?thesis using assms by (simp add: scheduled_cong [OF schedule_hash_settles])
next
  case (Advance d)
  then show ?thesis using assms by (simp add: scheduled_def)
next
  case (TimerFires k)
  then show ?thesis using assms by (simp add: scheduled_timer_fires)
next
  case (CheckSettles j response)
  then show ?thesis using assms by (simp add: scheduled_check_settles)
qed

lemma scheduled_run:
  "timed clock st \<Longrightarrow> scheduled st \<or> Initialize \<in> set evs \<Longrightarrow> scheduled (run st evs)"
proof (induction evs arbitrary: st)
  case Nil
  then show ?case by (simp add: run_def)
next
  case (Cons e evs)
  have t: "timed clock (step st e)" using Cons.prems(1) by (rule timed_step)
  have "scheduled (step st e) \<or> Initialize \<in> set evs"
  proof (cases "scheduled st \<or> e = Initialize")
    case True
    with scheduled_step [OF Cons.prems(1)] show ?thesis by blast
  next
    case False
    with Cons.prems(2) show ?thesis by auto
  qed
  from Cons.IH [OF t this] show ?case by (simp add: run_def)
qed

lemma check_begins:
  assumes "timed clock st" and "checks (step st e) \<noteq> checks st"
  shows "(\<exists>k. e = TimerFires k \<and> k < length (timers st) \<and> fst (timers st ! k) \<le> now st \<and>
            checks (step st e) = checks st @ [snd (timers st ! k)]) \<or>
         (\<exists>j response. e = CheckSettles j response \<and> j < length (checks st) \<and>
            checks (step st e) = take j (checks st) @ drop (Suc j) (checks st))"
proof (cases e)
  case Initialize
  from assms(1) have "configured st" by (simp add: timed_def)
  from schedule_fields [OF schedule_Initialize [OF this]] assms(2) Initialize show ?thesis by simp
next
  case (Register ev cb)
  have "\<And>st'. on ev cb st = Inr st' \<Longrightarrow> checks st' = checks st"
    using schedule_on by (fastforce simp add: schedule_def)
  with assms(2) Register show ?thesis by (auto split: sum.splits)
next
  case (Enqueue src)
  with assms(2) show ?thesis by simp
next
  case (Resume i)
  with assms(2) schedule_resume [of i st] show ?thesis by (simp add: schedule_def)
next
  case (RoutineSettles i net)
  with assms(2) schedule_routine_settles [of i net st] show ?thesis by (simp add: schedule_def)
next
  case (HashSettles i response)
  with assms(2) schedule_hash_settles [of i response st] show ?thesis by (simp add: schedule_def)
next
  case (Advance d)
  with assms(2) show ?thesis by simp
next
  case (TimerFires k)
  show ?thesis
  proof (cases "k < length (timers st) \<and> fst (timers st ! k) \<le> now st \<and>
      snd (timers st ! k) < length (updateSources st)")
    case False
    with assms(2) TimerFires show ?thesis by (simp add: schedule_timer_idle)
  next
    case True
    then have k: "k < length (timers st)" and due: "fst (timers st ! k) \<le> now st"
      and i: "snd (timers st ! k) < length (updateSources st)" by simp_all
    from schedule_fields [OF schedule_timer_fires [OF k due i]] k due TimerFires show ?thesis
      by simp
  qed
next
  case (CheckSettles j response)
  show ?thesis
  proof (cases "j < length (checks st) \<and> checks st ! j < length (updateSources st)")
    case False
    with assms(2) CheckSettles show ?thesis by (simp add: schedule_check_idle)
  next
    case True
    then have j: "j < length (checks st)" and i: "checks st ! j < length (updateSources st)"
      by simp_all
    from schedule_fields [OF schedule_check_settles [OF j i]] j CheckSettles show ?thesis by simp
  qed
qed

lemmas model_defs = queueUpdate_def generateUpdateId_def sort_js_def compare_priority_def
  getUpdatePriority_def get_property_def priorities_def processUpdateQueue_def
  processUpdateQueue_while_def processUpdate_def processUpdate_try_def processUpdate_catch_def
  processUpdateQueue_catch_def triggerCallbacks_def logUpdateStart_def insert_update_def
  update_types_def routine_types_def resume_def suspend_def continue_loop_def abandon_loop_def
  logUpdateError_def logUpdateComplete_def logUpdateComplete_source_def bind_def text_param_def
  hash_param_def routine_settles_def hash_settles_def getCurrentGitHash_def update_routine_def
  updateTiers_def updateGameMaster_def loadJsonFile_def unreachable_def constructor_def
  default_sources_def example_ids_def Let_def run_def

section \<open>The order of the queue\<close>

text \<open>
  C1 (for every sequence of enqueues, tasks are dequeued in non-increasing priority order)
  fails on a manager that is idle: the first enqueue starts the drain at once, so a tiers
  task (priority 6) enqueued before a gamemaster task (priority 10) is dequeued before it.
\<close>

theorem dequeue_order_counterexample:
  "map priority (dequeued (run (constructor [] [] 1 0 example_ids)
      [Enqueue (default_sources ! 2), Enqueue (default_sources ! 0), Resume 0,
       RoutineSettles 0 unreachable, HashSettles 0 FetchError, Resume 0, Resume 0])) =
     [Number 6, Number 10]"
  by (simp add: model_defs dequeued_def)

text \<open>
  C1, amended. In every run from a fresh manager in which the enqueued sources have kinds
  that are not names of inherited members: the pending queue is in non-increasing priority
  order, and its priorities are numbers; an enqueue that arrives while \<^verbatim>\<open>isProcessing\<close> is set
  puts its task behind every pending task of higher or equal priority (so behind its equals:
  first in, first out) and in front of every pending task of lower priority, and dequeues
  nothing; an enqueue that arrives while \<^verbatim>\<open>isProcessing\<close> is not set is dequeued at once; and
  whatever happens without a further enqueue, the tasks dequeued meanwhile are the first
  tasks of the queue, in the order of the queue, and the rest of the queue stays as it is.
\<close>

theorem queue_order:
  assumes "st = run (constructor updates sources pokemon clock gen) evs"
    and "\<forall>e\<in>set evs. plain_event e"
  shows "sorted_wrt (\<lambda>a b. prio b \<le> prio a) (updateQueue st) \<and>
    (\<forall>t\<in>set (updateQueue st). \<exists>n. priority t = Number n) \<and>
    (\<forall>src. type_src src \<notin> set object_prototype_names \<and> isProcessing st \<longrightarrow>
       updateQueue (queueUpdate src st) =
         filter (\<lambda>x. prio (new_task src st) \<le> prio x) (updateQueue st) @ new_task src st #
         filter (\<lambda>x. prio x < prio (new_task src st)) (updateQueue st) \<and>
       dequeued (queueUpdate src st) = dequeued st) \<and>
    (\<forall>src. \<not> isProcessing st \<longrightarrow>
       dequeued (queueUpdate src st) = dequeued st @ [new_task src st] \<and>
       updateQueue (queueUpdate src st) = []) \<and>
    (\<forall>later. (\<forall>e\<in>set later. \<not> enqueues e) \<longrightarrow>
       (\<exists>k. dequeued (run st later) = dequeued st @ take k (updateQueue st) \<and>
            updateQueue (run st later) = drop k (updateQueue st)))"
proof -
  have o: "orderly st" unfolding assms(1) using orderly_constructor assms(2) by (rule orderly_run)
  have a: "sorted_wrt (\<lambda>a b. prio b \<le> prio a) (updateQueue st)"
    using o by (simp add: orderly_def ordered_def)
  have b: "\<forall>t\<in>set (updateQueue st). \<exists>n. priority t = Number n"
  proof
    fix t
    assume "t \<in> set (updateQueue st)"
    with o have "numeric t" by (simp add: orderly_def ordered_def)
    then show "\<exists>n. priority t = Number n" by (cases "priority t") (simp_all add: numeric_def)
  qed
  have c: "\<forall>src. type_src src \<notin> set object_prototype_names \<and> isProcessing st \<longrightarrow>
       updateQueue (queueUpdate src st) =
         filter (\<lambda>x. prio (new_task src st) \<le> prio x) (updateQueue st) @ new_task src st #
         filter (\<lambda>x. prio x < prio (new_task src st)) (updateQueue st) \<and>
       dequeued (queueUpdate src st) = dequeued st"
    using o by (simp add: queueUpdate_busy pushed_def orderly_def sort_js_push numeric_new_task
        dequeued_def)
  have d: "\<forall>src. \<not> isProcessing st \<longrightarrow>
       dequeued (queueUpdate src st) = dequeued st @ [new_task src st] \<and>
       updateQueue (queueUpdate src st) = []"
  proof (intro allI impI)
    fix src
    assume i: "\<not> isProcessing st"
    with o have q: "updateQueue st = []" by (simp add: orderly_def)
    from queueUpdate_idle [OF i q, of src] obtain st1 l where
      e: "queueUpdate src st = st1\<lparr>loops := loops st @ [l]\<rparr>"
      and u: "untouched (st\<lparr>isProcessing := True, updateQueue := [], idctr := Suc (idctr st),
            trace := trace st @ [Queued (new_task src st), DrainStarted,
                                 Processing (new_task src st)]\<rparr>) st1"
      by blast
    from untouched_dequeued [OF u] u
    show "dequeued (queueUpdate src st) = dequeued st @ [new_task src st] \<and>
       updateQueue (queueUpdate src st) = []"
      by (simp add: e untouched_def dequeued_def)
  qed
  from a b c d quiet_run [of _ st] show ?thesis by blast
qed

theorem queue_order_witness:
  "plain_event (Enqueue (default_sources ! 2)) \<and>
   type_src (default_sources ! 0) \<notin> set object_prototype_names \<and>
   isProcessing (run (constructor [] [] 1 0 example_ids) [Enqueue (default_sources ! 2)]) \<and>
   dequeued (queueUpdate (default_sources ! 0)
      (run (constructor [] [] 1 0 example_ids) [Enqueue (default_sources ! 2)])) =
   dequeued (run (constructor [] [] 1 0 example_ids) [Enqueue (default_sources ! 2)]) \<and>
   \<not> enqueues (Resume 0) \<and>
   (\<exists>k. dequeued (run (run (constructor [] [] 1 0 example_ids) [Enqueue (default_sources ! 2)])
            [Resume 0]) =
        dequeued (run (constructor [] [] 1 0 example_ids) [Enqueue (default_sources ! 2)]) @
        take k (updateQueue (run (constructor [] [] 1 0 example_ids)
            [Enqueue (default_sources ! 2)])))"
proof -
  let ?st = "run (constructor [] [] 1 0 example_ids) [Enqueue (default_sources ! 2)]"
  have a: "\<forall>e\<in>set [Enqueue (default_sources ! 2)]. plain_event e"
    by (simp add: default_sources_def object_prototype_names_def)
  have b: "type_src (default_sources ! 0) \<notin> set object_prototype_names"
    by (simp add: default_sources_def object_prototype_names_def)
  have c: "isProcessing ?st" by (simp add: model_defs)
  have d: "\<forall>e\<in>set [Resume 0]. \<not> enqueues e" by simp
  note inst = queue_order [OF refl a, of "[]" "[]" 1 0 example_ids]
  from inst b c have "dequeued (queueUpdate (default_sources ! 0) ?st) = dequeued ?st" by blast
  moreover from inst d have "\<exists>k. dequeued (run ?st [Resume 0]) = dequeued ?st @ take k (updateQueue ?st)"
    by blast
  ultimately show ?thesis using a b c by simp
qed

section \<open>One drain loop\<close>

text \<open>
  C3 (the tasks that enqueue calls add while a drain loop is active are processed by that
  loop): on an idle manager a tiers task is enqueued, which starts the drain loop, and then a
  gamemaster task, which waits in the queue of the active loop. The tiers routine returns,
  and the remote answers the commit request of \<^verbatim>\<open>logUpdateComplete\<close> with a body that has no
  \<^verbatim>\<open>sha\<close>. Binding the \<^verbatim>\<open>undefined\<close> hash throws, so does \<^verbatim>\<open>logUpdateError\<close> in both \<^verbatim>\<open>catch\<close>
  blocks (the string thrown has no \<^verbatim>\<open>message\<close>), and the exception leaves
  \<^verbatim>\<open>processUpdateQueue\<close> with \<^verbatim>\<open>isProcessing\<close> set. From then on, whatever happens, no loop
  runs, nothing more is dequeued, and the gamemaster task stays in the queue.
\<close>

theorem drain_loop_dies:
  "length (loops (run (constructor [] [] 1 0 example_ids)
      [Enqueue (default_sources ! 2), Enqueue (default_sources ! 0)])) = 1 \<and>
   isProcessing (run (constructor [] [] 1 0 example_ids)
      [Enqueue (default_sources ! 2), Enqueue (default_sources ! 0)]) \<and>
   map sourceId (updateQueue (run (constructor [] [] 1 0 example_ids)
      [Enqueue (default_sources ! 2), Enqueue (default_sources ! 0)])) = [''pvpoke-gamemaster''] \<and>
   (\<forall>later.
      loops (run (run (constructor [] [] 1 0 example_ids)
        [Enqueue (default_sources ! 2), Enqueue (default_sources ! 0), Resume 0,
         RoutineSettles 0 no_tiers, HashSettles 0 NoSha, Resume 0, Resume 0, Resume 0])
        later) = [] \<and>
      isProcessing (run (run (constructor [] [] 1 0 example_ids)
        [Enqueue (default_sources ! 2), Enqueue (default_sources ! 0), Resume 0,
         RoutineSettles 0 no_tiers, HashSettles 0 NoSha, Resume 0, Resume 0, Resume 0])
        later) \<and>
      map sourceId (dequeued (run (run (constructor [] [] 1 0 example_ids)
        [Enqueue (default_sources ! 2), Enqueue (default_sources ! 0), Resume 0,
         RoutineSettles 0 no_tiers, HashSettles 0 NoSha, Resume 0, Resume 0, Resume 0])
        later)) = [''pokemon-resources''] \<and>
      ''pvpoke-gamemaster'' \<in> set (map sourceId (updateQueue
        (run (run (constructor [] [] 1 0 example_ids)
          [Enqueue (default_sources ! 2), Enqueue (default_sources ! 0), Resume 0,
           RoutineSettles 0 no_tiers, HashSettles 0 NoSha, Resume 0, Resume 0, Resume 0])
          later))))"
proof -
  let ?active = "run (constructor [] [] 1 0 example_ids)
      [Enqueue (default_sources ! 2), Enqueue (default_sources ! 0)]"
  let ?dead = "run (constructor [] [] 1 0 example_ids)
        [Enqueue (default_sources ! 2), Enqueue (default_sources ! 0), Resume 0,
         RoutineSettles 0 no_tiers, HashSettles 0 NoSha, Resume 0, Resume 0, Resume 0]"
  have a: "length (loops ?active) = 1 \<and> isProcessing ?active \<and>
      map sourceId (updateQueue ?active) = [''pvpoke-gamemaster'']"
    by (simp add: model_defs)
  have h: "halted ?dead" by (simp add: model_defs no_tiers_def halted_def)
  have d: "map sourceId (dequeued ?dead) = [''pokemon-resources'']"
    by (simp add: model_defs no_tiers_def dequeued_def)
  have q: "map sourceId (updateQueue ?dead) = [''pvpoke-gamemaster'']"
    by (simp add: model_defs no_tiers_def)
  have "\<forall>later. loops (run ?dead later) = [] \<and> isProcessing (run ?dead later) \<and>
      map sourceId (dequeued (run ?dead later)) = [''pokemon-resources''] \<and>
      ''pvpoke-gamemaster'' \<in> set (map sourceId (updateQueue (run ?dead later)))"
  proof
    fix later
    from stuck_run [OF h, of later] have s: "halted (run ?dead later)"
      and e: "dequeued (run ?dead later) = dequeued ?dead"
      and i: "set (updateQueue ?dead) \<subseteq> set (updateQueue (run ?dead later))"
      by (simp_all add: stuck_def)
    from q have "''pvpoke-gamemaster'' \<in> sourceId ` set (updateQueue ?dead)"
      by (metis list.set_intros(1) list.set_map)
    with i have "''pvpoke-gamemaster'' \<in> sourceId ` set (updateQueue (run ?dead later))" by blast
    with s e d show "loops (run ?dead later) = [] \<and> isProcessing (run ?dead later) \<and>
      map sourceId (dequeued (run ?dead later)) = [''pokemon-resources''] \<and>
      ''pvpoke-gamemaster'' \<in> set (map sourceId (updateQueue (run ?dead later)))"
      by (simp add: halted_def)
  qed
  with a show ?thesis by blast
qed

section \<open>Terminal audit records\<close>

text \<open>
  C4 (every dequeued task gets one terminal audit record, and the trail never holds a
  dequeued task with no recorded outcome): a tiers task is enqueued on an idle manager and its
  routine returns; the remote answers the commit request of \<^verbatim>\<open>logUpdateComplete\<close> with a body
  that has no \<^verbatim>\<open>sha\<close>. The \<^verbatim>\<open>UPDATE\<close> that would record the completion throws on the
  \<^verbatim>\<open>undefined\<close> hash; the two \<^verbatim>\<open>UPDATE\<close>s that would record the failure throw on the
  \<^verbatim>\<open>undefined\<close> message of the string thrown; the loop is left by the exception. The row of
  the task is \<open>in_progress\<close>, and stays so whatever happens afterwards.
\<close>

theorem audit_row_left_in_progress:
  "\<forall>later.
     map sourceId (dequeued (run (run (constructor [] [] 1 0 example_ids)
       [Enqueue (default_sources ! 2), Resume 0, RoutineSettles 0 no_tiers,
        HashSettles 0 NoSha, Resume 0, Resume 0, Resume 0]) later)) = [''pokemon-resources''] \<and>
     map (\<lambda>r. (fk_source_id r, update_status r, error_message r))
       (fact_data_updates (run (run (constructor [] [] 1 0 example_ids)
         [Enqueue (default_sources ! 2), Resume 0, RoutineSettles 0 no_tiers,
          HashSettles 0 NoSha, Resume 0, Resume 0, Resume 0]) later)) =
       [(''pokemon-resources'', in_progress, None)] \<and>
     loops (run (run (constructor [] [] 1 0 example_ids)
       [Enqueue (default_sources ! 2), Resume 0, RoutineSettles 0 no_tiers,
        HashSettles 0 NoSha, Resume 0, Resume 0, Resume 0]) later) = []"
proof
  fix later
  let ?dead = "run (constructor [] [] 1 0 example_ids)
       [Enqueue (default_sources ! 2), Resume 0, RoutineSettles 0 no_tiers,
        HashSettles 0 NoSha, Resume 0, Resume 0, Resume 0]"
  have h: "halted ?dead" by (simp add: model_defs no_tiers_def halted_def)
  have d: "map sourceId (dequeued ?dead) = [''pokemon-resources'']"
    by (simp add: model_defs no_tiers_def dequeued_def)
  have r: "map (\<lambda>r. (fk_source_id r, update_status r, error_message r)) (fact_data_updates ?dead) =
       [(''pokemon-resources'', in_progress, None)]"
    by (simp add: model_defs no_tiers_def)
  from stuck_run [OF h, of later] d r
  show "map sourceId (dequeued (run ?dead later)) = [''pokemon-resources''] \<and>
     map (\<lambda>r. (fk_source_id r, update_status r, error_message r))
       (fact_data_updates (run ?dead later)) = [(''pokemon-resources'', in_progress, None)] \<and>
     loops (run ?dead later) = []"
    by (simp add: stuck_def halted_def)
qed

lemmas start_defs = initialize_def initializeDataSources_def replace_source_def source_types_def
  startMonitoring_eq performInitialDataLoad_def timer_fires_def checkSource_begin_def
  check_settles_def checkSource_resume_def detectChanges_def getLastKnownHash_def sql_equal_def
  updateRankings_def leagues_def scenarios_def


section \<open>Detection when the remote cannot be reached\<close>


section \<open>The last known marker\<close>

text \<open>
  C5 (a completed task sets the marker of its source to the marker fetched for the task): the
  last completed record of the source \<^verbatim>\<open>pokemon-resources\<close> carries the marker \<^verbatim>\<open>abc\<close>. A tiers
  task for the source is enqueued and its routine returns; the commit request of
  \<^verbatim>\<open>logUpdateComplete\<close> fails, so no marker is fetched. \<^verbatim>\<open>getCurrentGitHash\<close> answers \<^verbatim>\<open>null\<close>
  and the task is recorded completed with a \<^verbatim>\<open>NULL\<close> marker: the source has no last known
  marker any more. (Had the request returned the commit \<^verbatim>\<open>def\<close>, the record and the marker
  of the source would carry \<^verbatim>\<open>def\<close>.)
\<close>

theorem completion_erases_marker:
  "lastKnownVersionMarker (default_sources ! 2)
     (constructor [previous_update] [] 1 5000 example_ids) = Some ''abc'' \<and>
   map (\<lambda>r. (fk_source_id r, update_status r, git_commit_hash r, created_at r))
     (fact_data_updates (run (constructor [previous_update] [] 1 5000 example_ids)
        [Enqueue (default_sources ! 2), Resume 0, RoutineSettles 0 no_tiers,
         HashSettles 0 FetchError])) =
     [(''pokemon-resources'', completed, Some ''abc'', 0),
      (''pokemon-resources'', completed, None, 5)] \<and>
   lastKnownVersionMarker (default_sources ! 2)
     (run (constructor [previous_update] [] 1 5000 example_ids)
        [Enqueue (default_sources ! 2), Resume 0, RoutineSettles 0 no_tiers,
         HashSettles 0 FetchError]) = None \<and>
   lastKnownVersionMarker (default_sources ! 2)
     (run (constructor [previous_update] [] 1 5000 example_ids)
        [Enqueue (default_sources ! 2), Resume 0, RoutineSettles 0 no_tiers,
         HashSettles 0 (Commit ''def'')]) = Some ''def''"
  by (simp add: model_defs no_tiers_def previous_update_def lastKnownVersionMarker_def)

section \<open>A payload that cannot be fetched\<close>

text \<open>
  C6 (for a task of any kind a failed payload fetch records the task as failed, with an
  error message, and leaves the marker of the source alone): \<^verbatim>\<open>loadJsonFile\<close> turns every
  failure into \<^verbatim>\<open>null\<close>. \<^verbatim>\<open>updateGameMaster\<close> throws on \<^verbatim>\<open>null\<close>, and the gamemaster task
  is recorded as failed with that message; \<^verbatim>\<open>updateTiers\<close> and \<^verbatim>\<open>updateRankings\<close> skip a
  \<^verbatim>\<open>null\<close> payload and return zero counts, so a tiers task and a rankings task whose every
  fetch is rejected are recorded as completed, and the marker of the source moves to the
  hash resolved at completion.
\<close>

theorem fetch_failure_completes_tiers_and_rankings:
  "map (\<lambda>r. (update_status r, records_added r, records_modified r, git_commit_hash r))
     (fact_data_updates (run (constructor [] [] 1 0 example_ids)
        [Enqueue (default_sources ! 2), Resume 0, RoutineSettles 0 unreachable,
         HashSettles 0 (Commit ''abc'')])) = [(completed, 0, 0, Some ''abc'')] \<and>
   lastKnownVersionMarker (default_sources ! 2) (constructor [] [] 1 0 example_ids) = None \<and>
   lastKnownVersionMarker (default_sources ! 2) (run (constructor [] [] 1 0 example_ids)
        [Enqueue (default_sources ! 2), Resume 0, RoutineSettles 0 unreachable,
         HashSettles 0 (Commit ''abc'')]) = Some ''abc'' \<and>
   map update_status
     (fact_data_updates (run (constructor [] [] 1 0 example_ids)
        [Enqueue (default_sources ! 1), Resume 0, RoutineSettles 0 unreachable,
         HashSettles 0 (Commit ''abc'')])) = [completed] \<and>
   map (\<lambda>r. (update_status r, error_message r))
     (fact_data_updates (run (constructor [] [] 1 0 example_ids)
        [Enqueue (default_sources ! 0), Resume 0, RoutineSettles 0 unreachable])) =
     [(failed, Some ''Failed to load GameMaster data'')]"
  by (simp add: model_defs start_defs lastKnownVersionMarker_def)

section \<open>The initial load\<close>

text \<open>
  C7 (on an empty store, initialization enqueues every active source and drains the queue
  before it completes): the first \<^verbatim>\<open>queueUpdate\<close> starts the drain loop, which is suspended
  on its first task; the closing \<^verbatim>\<open>await this.processUpdateQueue()\<close> then finds
  \<^verbatim>\<open>isProcessing\<close> set and returns at its guard, so \<^verbatim>\<open>initialize\<close> completes, waiting for
  nothing, while one task is in flight with an \<open>in_progress\<close> audit row and three are still
  queued.
\<close>

theorem initialize_returns_before_drain:
  "\<exists>st. initialize (constructor [] [] 0 0 example_ids) = Inr (st, False) \<and>
     map sourceId (updateQueue st) = [''pvpoke-rankings'', ''pokemon-resources'', ''dialgadex-data''] \<and>
     map (sourceId \<circ> task_of) (loops st) = [''pvpoke-gamemaster''] \<and>
     isProcessing st \<and>
     map update_status (fact_data_updates st) = [in_progress]"
  by (simp add: model_defs start_defs)

section \<open>The priority table\<close>

text \<open>
  C8 (as stated: gamemaster 10, rankings 8, tiers 6, every other kind 1) fails at the kind
  \<^verbatim>\<open>moves\<close>, which the table lists with weight 4.
\<close>

theorem getUpdatePriority_moves_counterexample:
  "getUpdatePriority ''moves'' \<noteq> Number 1"
  by (simp add: getUpdatePriority_def get_property_def priorities_def)

text \<open>
  C8, amended: the priority function maps gamemaster to 10, rankings to 8, tiers to 6 and
  moves to 4, and every other kind that is not the name of a member inherited from
  \<^verbatim>\<open>Object.prototype\<close> to the default 1.
\<close>

theorem getUpdatePriority_table:
  "getUpdatePriority ''gamemaster'' = Number 10 \<and>
   getUpdatePriority ''rankings'' = Number 8 \<and>
   getUpdatePriority ''tiers'' = Number 6 \<and>
   getUpdatePriority ''moves'' = Number 4 \<and>
   (\<forall>kind. kind \<notin> set [''gamemaster'', ''rankings'', ''tiers'', ''moves''] \<and>
           kind \<notin> set object_prototype_names \<longrightarrow> getUpdatePriority kind = Number 1)"
  by (simp add: getUpdatePriority_def get_property_def priorities_def)

theorem getUpdatePriority_table_witness:
  "''pokemon'' \<notin> set [''gamemaster'', ''rankings'', ''tiers'', ''moves''] \<and>
   ''pokemon'' \<notin> set object_prototype_names \<and> getUpdatePriority ''pokemon'' = Number 1"
proof -
  have a: "''pokemon'' \<notin> set [''gamemaster'', ''rankings'', ''tiers'', ''moves'']"
    by simp
  have b: "''pokemon'' \<notin> set object_prototype_names"
    by (simp add: object_prototype_names_def)
  from getUpdatePriority_table a b have "getUpdatePriority ''pokemon'' = Number 1"
    by blast
  with a b show ?thesis by blast
qed

section \<open>Listeners of unknown events\<close>

text \<open>
  C10 (registering for, or triggering, an event outside the four predefined names is a
  silent no-op and raises nothing): on a freshly built manager the event name
  \<^verbatim>\<open>constructor\<close>, which every object literal inherits, passes the truthiness guard of both
  methods, and the call of \<^verbatim>\<open>push\<close> (of \<^verbatim>\<open>forEach\<close>) on the inherited function raises a
  \<^verbatim>\<open>TypeError\<close>.
\<close>

theorem on_inherited_name_raises:
  "on ''constructor'' callback (constructor updates sources pokemon clock gen) =
     Inl (TypeError ''this.callbacks[event].push is not a function'') \<and>
   triggerCallbacks ''constructor'' data (constructor updates sources pokemon clock gen) =
     Inl (TypeError ''this.callbacks[event].forEach is not a function'')"
  by (simp add: on_def triggerCallbacks_def get_property_def constructor_def
      object_prototype_names_def)

section \<open>The schedule of the source checks\<close>

text \<open>
  C9. In every run from a fresh manager built at time \<open>clock\<close>: initialization starts no
  check and sets, for each of the four sources (all are active), one timer due 60000 ms
  later; every pending timer is due no earlier than 60000 ms after \<open>clock\<close>, and before that
  time no check is in flight and none has begun; a check begins only when a timer that is due
  fires; when the commit request of a check in flight settles, whatever it resolved to (a
  failed request included) and whether or not an update is enqueued, the check ends and sets
  a timer for the same source, due one \<^verbatim>\<open>checkInterval\<close> of that source after the time at
  which it ends; once the manager is initialized, every source has a pending timer or a check
  in flight; and every pending timer fires, and begins the check of its source, once the
  clock has reached its due time.
\<close>

theorem schedule_repeats:
  assumes "st = run (constructor updates sources pokemon clock gen) evs"
  shows "timers (step st Initialize) =
       timers st @ [(now st + 60000, 0), (now st + 60000, 1), (now st + 60000, 2),
                    (now st + 60000, 3)] \<and>
     checks (step st Initialize) = checks st \<and>
     checked (trace (step st Initialize)) = checked (trace st) \<and>
     (\<forall>x\<in>set (timers st). clock + 60000 \<le> fst x) \<and>
     (now st < clock + 60000 \<longrightarrow> checks st = [] \<and> checked (trace st) = []) \<and>
     (\<forall>e. checks (step st e) \<noteq> checks st \<longrightarrow>
        (\<exists>k. e = TimerFires k \<and> k < length (timers st) \<and> fst (timers st ! k) \<le> now st \<and>
            checks (step st e) = checks st @ [snd (timers st ! k)]) \<or>
        (\<exists>j response. e = CheckSettles j response \<and> j < length (checks st) \<and>
            checks (step st e) = take j (checks st) @ drop (Suc j) (checks st))) \<and>
     (\<forall>j response. j < length (checks st) \<longrightarrow>
        timers (check_settles j response st) =
          timers st @ [(now st + checkInterval (default_sources ! (checks st ! j)), checks st ! j)] \<and>
        checks (check_settles j response st) = take j (checks st) @ drop (Suc j) (checks st)) \<and>
     (Initialize \<in> set evs \<longrightarrow>
        (\<forall>i<length default_sources. i \<in> snd ` set (timers st) \<or> i \<in> set (checks st))) \<and>
     (\<forall>k. k < length (timers st) \<longrightarrow>
        checks (run st [Advance (fst (timers st ! k) - now st), TimerFires k]) =
          checks st @ [snd (timers st ! k)] \<and>
        timers (run st [Advance (fst (timers st ! k) - now st), TimerFires k]) =
          take k (timers st) @ drop (Suc k) (timers st))"
proof -
  have t0: "timed clock (constructor updates sources pokemon clock gen)"
    by (rule timed_constructor)
  have t: "timed clock st" unfolding assms using t0 by (rule timed_run)
  then have c: "configured st" by (simp add: timed_def)
  have "length default_sources = 4" by (simp add: default_sources_def)
  moreover have "[0..<4] = [0, 1, 2, 3::nat]" by (simp add: eval_nat_numeral)
  ultimately have u: "[0..<length default_sources] = [0, 1, 2, 3]" by simp
  have a: "timers (step st Initialize) =
       timers st @ [(now st + 60000, 0), (now st + 60000, 1), (now st + 60000, 2),
                    (now st + 60000, 3)] \<and>
     checks (step st Initialize) = checks st \<and>
     checked (trace (step st Initialize)) = checked (trace st)"
    using schedule_fields [OF schedule_Initialize [OF c]] by (simp only: u) simp
  have b: "(\<forall>x\<in>set (timers st). clock + 60000 \<le> fst x) \<and>
     (now st < clock + 60000 \<longrightarrow> checks st = [] \<and> checked (trace st) = [])"
    using t by (simp add: timed_def)
  have d: "\<forall>j response. j < length (checks st) \<longrightarrow>
        timers (check_settles j response st) =
          timers st @ [(now st + checkInterval (default_sources ! (checks st ! j)), checks st ! j)] \<and>
        checks (check_settles j response st) = take j (checks st) @ drop (Suc j) (checks st)"
  proof (intro allI impI)
    fix j response
    assume j: "j < length (checks st)"
    with t have i: "checks st ! j < length default_sources" by (simp add: timed_def)
    then have i': "checks st ! j < length (updateSources st)" by (simp add: configured_length [OF c])
    from schedule_fields [OF schedule_check_settles [OF j i', of response]]
      configured_interval [OF c i]
    show "timers (check_settles j response st) =
          timers st @ [(now st + checkInterval (default_sources ! (checks st ! j)), checks st ! j)] \<and>
        checks (check_settles j response st) = take j (checks st) @ drop (Suc j) (checks st)"
      by simp
  qed
  have e: "Initialize \<in> set evs \<longrightarrow>
        (\<forall>i<length default_sources. i \<in> snd ` set (timers st) \<or> i \<in> set (checks st))"
  proof
    assume "Initialize \<in> set evs"
    then have "scheduled (constructor updates sources pokemon clock gen) \<or> Initialize \<in> set evs"
      by simp
    from scheduled_run [OF t0 this]
    show "\<forall>i<length default_sources. i \<in> snd ` set (timers st) \<or> i \<in> set (checks st)"
      by (simp add: assms scheduled_def)
  qed
  have f: "\<forall>k. k < length (timers st) \<longrightarrow>
        checks (run st [Advance (fst (timers st ! k) - now st), TimerFires k]) =
          checks st @ [snd (timers st ! k)] \<and>
        timers (run st [Advance (fst (timers st ! k) - now st), TimerFires k]) =
          take k (timers st) @ drop (Suc k) (timers st)"
  proof (intro allI impI)
    fix k
    assume k: "k < length (timers st)"
    define st' where "st' = st\<lparr>now := now st + (fst (timers st ! k) - now st)\<rparr>"
    from k have "timers st ! k \<in> set (timers st)" by simp
    with t have "snd (timers st ! k) < length default_sources" by (simp add: timed_def)
    then have i: "snd (timers st' ! k) < length (updateSources st')"
      by (simp add: st'_def configured_length [OF c])
    have k': "k < length (timers st')" using k by (simp add: st'_def)
    have due: "fst (timers st' ! k) \<le> now st'" by (simp add: st'_def)
    from schedule_fields [OF schedule_timer_fires [OF k' due i]]
    have "checks (timer_fires k st') = checks st @ [snd (timers st ! k)] \<and>
        timers (timer_fires k st') = take k (timers st) @ drop (Suc k) (timers st)"
      by (simp add: st'_def)
    then show "checks (run st [Advance (fst (timers st ! k) - now st), TimerFires k]) =
          checks st @ [snd (timers st ! k)] \<and>
        timers (run st [Advance (fst (timers st ! k) - now st), TimerFires k]) =
          take k (timers st) @ drop (Suc k) (timers st)"
      by (simp add: run_def st'_def)
  qed
  from a b check_begins [OF t] d e f show ?thesis by blast
qed

theorem schedule_repeats_witness:
  "checks (run (constructor [] [] 1 0 example_ids) [Initialize, Advance 60000, TimerFires 2]) = [2] \<and>
   timers (run (constructor [] [] 1 0 example_ids) [Initialize, Advance 60000, TimerFires 2]) =
     [(60000, 0), (60000, 1), (60000, 3)] \<and>
   timers (check_settles 0 FetchError
       (run (constructor [] [] 1 0 example_ids) [Initialize, Advance 60000, TimerFires 2])) =
     [(60000, 0), (60000, 1), (60000, 3), (86460000, 2)] \<and>
   checks (check_settles 0 FetchError
       (run (constructor [] [] 1 0 example_ids) [Initialize, Advance 60000, TimerFires 2])) = []"
proof -
  let ?st = "run (constructor [] [] 1 0 example_ids) [Initialize, Advance 60000, TimerFires 2]"
  have c: "checks ?st = [2]" by (simp add: model_defs start_defs)
  have t: "timers ?st = [(60000, 0), (60000, 1), (60000, 3)]" by (simp add: model_defs start_defs)
  have n: "now ?st = 60000" by (simp add: model_defs start_defs)
  have i: "checkInterval (default_sources ! 2) = 86400000" by (simp add: default_sources_def)
  have l: "0 < length (checks ?st)" by (simp only: c) simp
  from schedule_repeats [OF refl, of "[]" "[]" 1 0 example_ids
      "[Initialize, Advance 60000, TimerFires 2]"] l
  have "timers (check_settles 0 FetchError ?st) =
          timers ?st @ [(now ?st + checkInterval (default_sources ! (checks ?st ! 0)), checks ?st ! 0)] \<and>
        checks (check_settles 0 FetchError ?st) = take 0 (checks ?st) @ drop (Suc 0) (checks ?st)"
    by blast
  then have "timers (check_settles 0 FetchError ?st) =
          [(60000, 0), (60000, 1), (60000, 3)] @ [(60000 + checkInterval (default_sources ! ([2] ! 0)), [2] ! 0)] \<and>
        checks (check_settles 0 FetchError ?st) = take 0 [2] @ drop (Suc 0) [2]"
    by (simp only: c t n)
  then have "timers (check_settles 0 FetchError ?st) =
          [(60000, 0), (60000, 1), (60000, 3), (86460000, 2)] \<and>
        checks (check_settles 0 FetchError ?st) = []"
    by (simp add: i)
  with c t show ?thesis by blast
qed

end
